theory Spec2Isabelle
  imports Main "HOL-Library.Multiset" "HOL-Library.Product_Lexorder"
begin

section \<open>Characters and Python string helpers\<close>

text \<open>
  Texts and URLs are Python \<open>str\<close> values.  They are modelled as HOL strings, so a
  character is a code point below 256; the character classes below are the ones
  Python's \<open>re\<close> module uses for \<open>str\<close> patterns, restricted to that range.
\<close>

definition code :: "char \<Rightarrow> nat" where
  "code c = of_char c"

text \<open>\<open>\d\<close>: the decimal digits.\<close>

definition is_digit :: "char \<Rightarrow> bool" where
  "is_digit c = (48 \<le> code c \<and> code c \<le> 57)"

text \<open>\<open>\s\<close> and \<open>str.isspace\<close>: tab to carriage return, the four separators
  \<open>0x1c\<close>..\<open>0x1f\<close>, blank, \<open>0x85\<close> and the no-break space.\<close>

definition is_space :: "char \<Rightarrow> bool" where
  "is_space c = ((9 \<le> code c \<and> code c \<le> 13) \<or> (28 \<le> code c \<and> code c \<le> 32)
     \<or> code c = 133 \<or> code c = 160)"

text \<open>\<open>\w\<close>: alphanumeric characters and the underscore.\<close>

definition is_word :: "char \<Rightarrow> bool" where
  "is_word c = (let n = code c in
     (48 \<le> n \<and> n \<le> 57) \<or> (65 \<le> n \<and> n \<le> 90) \<or> n = 95 \<or> (97 \<le> n \<and> n \<le> 122)
     \<or> n = 170 \<or> n = 178 \<or> n = 179 \<or> n = 181 \<or> n = 185 \<or> n = 186
     \<or> (188 \<le> n \<and> n \<le> 190) \<or> (192 \<le> n \<and> n \<le> 214) \<or> (216 \<le> n \<and> n \<le> 246)
     \<or> 248 \<le> n)"

text \<open>\<open>str.lower\<close> on one character; also the case folding of \<open>re.I\<close>.\<close>

definition lower_char :: "char \<Rightarrow> char" where
  "lower_char c = (let n = code c in
     if (65 \<le> n \<and> n \<le> 90) \<or> (192 \<le> n \<and> n \<le> 214) \<or> (216 \<le> n \<and> n \<le> 222)
     then char_of (n + 32) else c)"

definition lower :: "string \<Rightarrow> string" where
  "lower s = map lower_char s"

text \<open>\<open>str.strip()\<close>.\<close>

definition strip :: "string \<Rightarrow> string" where
  "strip s = rev (dropWhile is_space (rev (dropWhile is_space s)))"

datatype error = FetchError | ValueError

text \<open>
  \<open>int(s)\<close>.  The program applies it only to strings made of what \<open>\d\<close> matched, where
  it raises \<open>ValueError\<close> exactly on the empty string.
\<close>

definition digits_value :: "string \<Rightarrow> int" where
  "digits_value s = foldl (\<lambda>a c. 10 * a + (int (code c) - 48)) 0 s"

definition py_int :: "string \<Rightarrow> error + int" where
  "py_int s = (if s \<noteq> [] \<and> list_all is_digit s then Inr (digits_value s) else Inl ValueError)"

text \<open>\<open>str(n)\<close> for an integer, as an f-string formats it.\<close>

fun str_nat :: "nat \<Rightarrow> string" where
  "str_nat n = (if n < 10 then [char_of (48 + n)]
                else str_nat (n div 10) @ [char_of (48 + n mod 10)])"

definition str_int :: "int \<Rightarrow> string" where
  "str_int i = (if i < 0 then CHR ''-'' # str_nat (nat (- i)) else str_nat (nat i))"

section \<open>Regular expressions with Python's backtracking order\<close>

datatype atom = Lit char | Digit | NonDigit | Space | WordCh | NoneOf "char list"

datatype re =
    Eps
  | One "atom list"
  | Rep "atom list" nat "nat option"
  | Bnd
  | Eos
  | Cat re re
  | Alt re re
  | Grp nat re

text \<open>
  \<open>One as\<close> is one character matched by any of \<open>as\<close> (a literal, an escape or a
  bracket set); \<open>Rep as lo hi\<close> is the greedy repetition \<open>{lo,hi}\<close> of such a character
  (\<open>+\<close> is \<open>Rep as 1 None\<close>, \<open>*\<close> is \<open>Rep as 0 None\<close>); \<open>Bnd\<close> is \<open>\b\<close>, \<open>Eos\<close> is \<open>$\<close>,
  \<open>Grp n r\<close> is capture group \<open>n\<close>.  The flag \<open>ic\<close> is \<open>re.I\<close>.
\<close>

definition lit_match :: "bool \<Rightarrow> char \<Rightarrow> char \<Rightarrow> bool" where
  "lit_match ic l c = (if ic then lower_char c = lower_char l else c = l)"

fun atom_match :: "bool \<Rightarrow> atom \<Rightarrow> char \<Rightarrow> bool" where
  "atom_match ic (Lit l) c = lit_match ic l c"
| "atom_match ic Digit c = is_digit c"
| "atom_match ic NonDigit c = (\<not> is_digit c)"
| "atom_match ic Space c = is_space c"
| "atom_match ic WordCh c = is_word c"
| "atom_match ic (NoneOf ls) c = (\<not> list_ex (\<lambda>l. lit_match ic l c) ls)"

definition in_class :: "bool \<Rightarrow> atom list \<Rightarrow> char \<Rightarrow> bool" where
  "in_class ic as c = list_ex (\<lambda>a. atom_match ic a c) as"

text \<open>A position in the subject: the character before it, if any, and the rest.\<close>

type_synonym pos = "char option \<times> string"
type_synonym caps = "nat \<rightharpoonup> string"

fun advance :: "nat \<Rightarrow> pos \<Rightarrow> pos" where
  "advance 0 p = p"
| "advance (Suc n) (pv, []) = (pv, [])"
| "advance (Suc n) (pv, x # xs) = advance n (Some x, xs)"

definition at_boundary :: "pos \<Rightarrow> bool" where
  "at_boundary p = ((case fst p of None \<Rightarrow> False | Some c \<Rightarrow> is_word c)
                    \<noteq> (case snd p of [] \<Rightarrow> False | c # _ \<Rightarrow> is_word c))"

text \<open>\<open>$\<close> without \<open>re.M\<close>: the end of the subject, or just before a final newline.\<close>

definition at_end :: "pos \<Rightarrow> bool" where
  "at_end p = (snd p = [] \<or> snd p = [CHR 0x0A])"

text \<open>
  All the ways \<open>r\<close> can match at a position, in the order in which the backtracking
  matcher tries them: a greedy repetition first takes as many characters as it can and
  then gives them back one by one, an alternation tries its left branch first.
\<close>

fun ms :: "bool \<Rightarrow> re \<Rightarrow> pos \<times> caps \<Rightarrow> (pos \<times> caps) list" where
  "ms ic Eps x = [x]"
| "ms ic (One as) (p, c) =
     (case snd p of [] \<Rightarrow> []
      | a # s \<Rightarrow> if in_class ic as a then [((Some a, s), c)] else [])"
| "ms ic (Rep as lo hi) (p, c) =
     (let run = length (takeWhile (in_class ic as) (snd p));
          m = (case hi of None \<Rightarrow> run | Some h \<Rightarrow> min h run)
      in map (\<lambda>j. (advance j p, c)) (rev [lo ..< Suc m]))"
| "ms ic Bnd x = (if at_boundary (fst x) then [x] else [])"
| "ms ic Eos x = (if at_end (fst x) then [x] else [])"
| "ms ic (Cat a b) x = concat (map (ms ic b) (ms ic a x))"
| "ms ic (Alt a b) x = ms ic a x @ ms ic b x"
| "ms ic (Grp n a) (p, c) =
     map (\<lambda>(p', c'). (p', c'(n \<mapsto> take (length (snd p) - length (snd p')) (snd p))))
       (ms ic a (p, c))"

text \<open>The first match starting exactly at a position, as its capture groups.\<close>

definition match_at :: "bool \<Rightarrow> re \<Rightarrow> pos \<Rightarrow> caps option" where
  "match_at ic r p = (case ms ic r (p, Map.empty) of [] \<Rightarrow> None | x # _ \<Rightarrow> Some (snd x))"

text \<open>\<open>re.search\<close>: the leftmost start position with a match.\<close>

fun scan :: "bool \<Rightarrow> re \<Rightarrow> char option \<Rightarrow> string \<Rightarrow> caps option" where
  "scan ic r pv [] = match_at ic r (pv, [])"
| "scan ic r pv (x # xs) =
     (case match_at ic r (pv, x # xs) of
        Some c \<Rightarrow> Some c
      | None \<Rightarrow> scan ic r (Some x) xs)"

definition search :: "bool \<Rightarrow> re \<Rightarrow> string \<Rightarrow> caps option" where
  "search ic r text = scan ic r None text"

text \<open>Building patterns: a sequence, a literal string, a list of alternatives.\<close>

fun seq :: "re list \<Rightarrow> re" where
  "seq [] = Eps"
| "seq [r] = r"
| "seq (r # rs) = Cat r (seq rs)"

definition str :: "string \<Rightarrow> re" where
  "str w = seq (map (\<lambda>l. One [Lit l]) w)"

fun alts :: "re list \<Rightarrow> re" where
  "alts [] = Eps"
| "alts [r] = r"
| "alts (r # rs) = Alt r (alts rs)"

text \<open>\<open>re.sub(r"\D", "", s)\<close>: every non-digit is deleted.\<close>

definition sub_nondigits :: "string \<Rightarrow> string" where
  "sub_nondigits s = filter (\<lambda>c. \<not> in_class False [NonDigit] c) s"

section \<open>The patterns of \<open>billfinder.py\<close>\<close>

text \<open>\<^verbatim>\<open>YEAR_RE = re.compile(r"\b(20\d{2})\s+(?:Regular|1st|2nd|3rd)\s+Session", re.I)\<close>\<close>

definition YEAR_RE :: re where
  "YEAR_RE = seq [Bnd, Grp 1 (seq [str ''20'', Rep [Digit] 2 (Some 2)]), Rep [Space] 1 None,
     alts [str ''Regular'', str ''1st'', str ''2nd'', str ''3rd''], Rep [Space] 1 None,
     str ''Session'']"

text \<open>\<^verbatim>\<open>BILLNUM_RE = re.compile(r"\bHOUSE\s+BILL\s+(\d{3,4})\b", re.I)\<close>\<close>

definition BILLNUM_RE :: re where
  "BILLNUM_RE = seq [Bnd, str ''HOUSE'', Rep [Space] 1 None, str ''BILL'', Rep [Space] 1 None,
     Grp 1 (Rep [Digit] 3 (Some 4)), Bnd]"

text \<open>\<^verbatim>\<open>AN_ACT_RE = re.compile(r"\bAN\s+ACT\s+Relating\s+to[^\n\r]*", re.I)\<close>;
  group 0, the whole match, is recorded as group \<open>0\<close>.\<close>

definition AN_ACT_RE :: re where
  "AN_ACT_RE = Grp 0 (seq [Bnd, str ''AN'', Rep [Space] 1 None, str ''ACT'', Rep [Space] 1 None,
     str ''Relating'', Rep [Space] 1 None, str ''to'', Rep [NoneOf [CHR 0x0A, CHR 0x0D]] 0 None])"

text \<open>\<^verbatim>\<open>re.search(r"/(\d{3,4})(?:[-\w]*)\.htm$", url)\<close>, without flags.\<close>

definition FILENAME_RE :: re where
  "FILENAME_RE = seq [str ''/'', Grp 1 (Rep [Digit] 3 (Some 4)), Rep [Lit CHR ''-'', WordCh] 0 None,
     str ''.htm'', Eos]"

text \<open>\<^verbatim>\<open>KEYWORDS = [r"\bclimate\b"]\<close>\<close>

definition KEYWORDS :: "re list" where
  "KEYWORDS = [seq [Bnd, str ''climate'', Bnd]]"

definition SESSION_FOLDERS :: "(string \<times> string) list" where
  "SESSION_FOLDERS =
    [(''2023-24'', ''https://app.leg.wa.gov/documents/billdocs/2023-24/Htm/Bills/House%20Bills/''),
     (''2025-26'', ''https://app.leg.wa.gov/documents/billdocs/2025-26/Htm/Bills/House%20Bills/'')]"

definition DEFAULT_YEARS :: "int set" where
  "DEFAULT_YEARS = {2023, 2024, 2025}"

section \<open>The outside world\<close>

text \<open>
  What the program reads from outside and cannot decide itself: \<open>get_soup\<close> gives, for
  a listing URL, the \<open>href\<close> attributes of the anchors that
  \<^verbatim>\<open>soup.select('a[href$=".htm"]')\<close> returns, or fails; \<open>urljoin\<close> is the library's URL
  resolution; \<open>http_get\<close> is the body of a document, or fails; \<open>unescape\<close> is
  \<open>html.unescape\<close>; \<open>as_completed\<close> is the order in which the futures of one session
  complete, given the session label and the URLs in submission order.
\<close>

record world =
  get_soup :: "string \<Rightarrow> error + string option list"
  urljoin :: "string \<Rightarrow> string \<Rightarrow> string"
  http_get :: "string \<Rightarrow> error + string"
  unescape :: "string \<Rightarrow> string"
  as_completed :: "string \<Rightarrow> string list \<Rightarrow> string list"

section \<open>Document Locator\<close>

definition list_bill_files :: "world \<Rightarrow> string \<Rightarrow> string \<Rightarrow> error + string list" where
  "list_bill_files w biennium base_url =
     (case get_soup w base_url of
        Inl e \<Rightarrow> Inl e
      | Inr anchors \<Rightarrow>
          Inr (concat (map (\<lambda>href. case href of
                               None \<Rightarrow> []
                             | Some h \<Rightarrow> if h = [] then [] else [urljoin w base_url h])
                        anchors)))"

section \<open>Document Extractor\<close>

record info =
  year :: "int option"
  bill_number :: "string option"
  title :: "string option"
  matched :: bool
  bill_text_url :: string

text \<open>\<open>m.group(n)\<close> of a match object.\<close>

definition m_group :: "caps \<Rightarrow> nat \<Rightarrow> string" where
  "m_group m n = (case m n of None \<Rightarrow> [] | Some s \<Rightarrow> s)"

text \<open>The body of \<open>parse_bill_page\<close> after the document has been fetched.\<close>

definition parse_bill_text :: "world \<Rightarrow> string \<Rightarrow> string \<Rightarrow> error + info" where
  "parse_bill_text w url text =
     (case (case search True YEAR_RE text of
              None \<Rightarrow> Inr None
            | Some m \<Rightarrow> (case py_int (m_group m 1) of Inl e \<Rightarrow> Inl e | Inr v \<Rightarrow> Inr (Some v))) of
        Inl e \<Rightarrow> Inl e
      | Inr y \<Rightarrow>
          let b = (case search True BILLNUM_RE text of
                     Some n \<Rightarrow> Some (m_group n 1)
                   | None \<Rightarrow> (case search False FILENAME_RE url of
                                Some mfn \<Rightarrow> Some (m_group mfn 1)
                              | None \<Rightarrow> None));
              t = (case search True AN_ACT_RE text of
                     Some t \<Rightarrow> Some (strip (unescape w (m_group t 0)))
                   | None \<Rightarrow> None);
              lower_text = lower text;
              mt = list_ex (\<lambda>k. search True k lower_text \<noteq> None) KEYWORDS
          in Inr \<lparr>year = y, bill_number = b, title = t, matched = mt, bill_text_url = url\<rparr>)"

definition parse_bill_page :: "world \<Rightarrow> string \<Rightarrow> error + info" where
  "parse_bill_page w url =
     (case http_get w url of Inl e \<Rightarrow> Inl e | Inr text \<Rightarrow> parse_bill_text w url text)"

section \<open>Summary URL\<close>

text \<open>Python truth values of an optional integer and an optional string.\<close>

fun truthy_int :: "int option \<Rightarrow> bool" where
  "truthy_int None = False"
| "truthy_int (Some i) = (i \<noteq> 0)"

fun truthy_str :: "string option \<Rightarrow> bool" where
  "truthy_str None = False"
| "truthy_str (Some s) = (s \<noteq> [])"

definition bill_summary_url :: "string option \<Rightarrow> int option \<Rightarrow> string option" where
  "bill_summary_url b y =
     (if \<not> truthy_str b \<or> \<not> truthy_int y then None
      else Some (''https://app.leg.wa.gov/BillSummary/?BillNumber='' @ the b @ ''&Year=''
                 @ str_int (the y) @ ''&Initiative=false''))"

section \<open>Aggregation pipeline\<close>

record row =
  row_biennium :: string
  row_year :: int
  row_bill_number :: string
  row_title :: string
  row_bill_text_url :: string
  row_bill_summary_url :: string

type_synonym key = "string \<times> int \<times> string"
type_synonym state = "row list \<times> key set"

text \<open>The row appended for a qualifying record.\<close>

definition make_row :: "string \<Rightarrow> int \<Rightarrow> string \<Rightarrow> info \<Rightarrow> row" where
  "make_row biennium y b info =
     \<lparr>row_biennium = biennium, row_year = y, row_bill_number = ''HB '' @ b,
      row_title = (case title info of None \<Rightarrow> [] | Some t \<Rightarrow> t),
      row_bill_text_url = bill_text_url info,
      row_bill_summary_url =
        (case bill_summary_url (Some b) (Some y) of None \<Rightarrow> [] | Some s \<Rightarrow> s)\<rparr>"

text \<open>One turn of the loop over the completed futures.\<close>

definition consume :: "int set \<Rightarrow> string \<Rightarrow> state \<Rightarrow> error + info \<Rightarrow> state" where
  "consume years biennium st res =
     (case res of
        Inl e \<Rightarrow> st
      | Inr info \<Rightarrow>
          if \<not> (truthy_int (year info) \<and> truthy_str (bill_number info)) then st
          else if the (year info) \<notin> years then st
          else if \<not> matched info then st
          else let y = the (year info); b = the (bill_number info); k = (biennium, y, b) in
               if k \<in> snd st then st
               else (fst st @ [make_row biennium y b info], insert k (snd st)))"

definition drain :: "int set \<Rightarrow> string \<Rightarrow> state \<Rightarrow> (error + info) list \<Rightarrow> state" where
  "drain years biennium st results = foldl (consume years biennium) st results"

text \<open>One turn of the loop over the sessions.\<close>

definition scan_session :: "world \<Rightarrow> int set \<Rightarrow> state \<Rightarrow> string \<times> string \<Rightarrow> state" where
  "scan_session w years st s =
     (case list_bill_files w (fst s) (snd s) of
        Inl e \<Rightarrow> st
      | Inr files \<Rightarrow>
          drain years (fst s) st (map (parse_bill_page w) (as_completed w (fst s) files)))"

text \<open>The sort key of a row; \<open>int\<close> may raise.\<close>

definition sort_key_of :: "row \<Rightarrow> error + int \<times> int" where
  "sort_key_of r =
     (case py_int (sub_nondigits (row_bill_number r)) of
        Inl e \<Rightarrow> Inl e
      | Inr n \<Rightarrow> Inr (row_year r, n))"

text \<open>\<open>list.sort(key=...)\<close>: the keys are computed first, then the rows are sorted
  stably by their keys alone.\<close>

fun keyed :: "row list \<Rightarrow> error + ((int \<times> int) \<times> row) list" where
  "keyed [] = Inr []"
| "keyed (r # rs) =
     (case sort_key_of r of
        Inl e \<Rightarrow> Inl e
      | Inr k \<Rightarrow> (case keyed rs of Inl e \<Rightarrow> Inl e | Inr krs \<Rightarrow> Inr ((k, r) # krs)))"

definition sort_rows :: "row list \<Rightarrow> error + row list" where
  "sort_rows rows =
     (case keyed rows of Inl e \<Rightarrow> Inl e | Inr krs \<Rightarrow> Inr (map snd (sort_key fst krs)))"

text \<open>\<open>main\<close>, up to the rows handed to the CSV writer; the sessions are a parameter.\<close>

definition collect :: "(string \<times> string) list \<Rightarrow> world \<Rightarrow> int set \<Rightarrow> state" where
  "collect sessions w years = foldl (scan_session w years) ([], {}) sessions"

definition main_on :: "(string \<times> string) list \<Rightarrow> world \<Rightarrow> int set \<Rightarrow> error + row list" where
  "main_on sessions w years = sort_rows (fst (collect sessions w years))"

definition main :: "world \<Rightarrow> int set \<Rightarrow> error + row list" where
  "main w years = main_on SESSION_FOLDERS w years"

section \<open>Auxiliary notions for the proofs\<close>

text \<open>The character before the position reached after reading \<open>u\<close>.\<close>

definition after :: "char option \<Rightarrow> string \<Rightarrow> char option" where
  "after pv u = (if u = [] then pv else Some (last u))"

text \<open>The characters of the bracket set \<open>[-\w]\<close>.\<close>

definition fn_char :: "char \<Rightarrow> bool" where
  "fn_char c = (c = CHR ''-'' \<or> is_word c)"


definition qualifies :: "int set \<Rightarrow> info \<Rightarrow> bool" where
  "qualifies years i \<longleftrightarrow>
     truthy_int (year i) \<and> truthy_str (bill_number i) \<and> the (year i) \<in> years \<and> matched i"

definition new_row :: "string \<Rightarrow> info \<Rightarrow> row" where
  "new_row biennium i = make_row biennium (the (year i)) (the (bill_number i)) i"


definition is_upper :: "char \<Rightarrow> bool" where
  "is_upper c = ((65 \<le> code c \<and> code c \<le> 90) \<or> (192 \<le> code c \<and> code c \<le> 214)
      \<or> (216 \<le> code c \<and> code c \<le> 222))"

text \<open>Patterns without a capture group.\<close>

fun nogrp :: "re \<Rightarrow> bool" where
  "nogrp (Grp n r) = False"
| "nogrp (Cat a b) = (nogrp a \<and> nogrp b)"
| "nogrp (Alt a b) = (nogrp a \<and> nogrp b)"
| "nogrp r = True"

text \<open>What the two bill-number patterns capture: three or four digits.\<close>

definition bill_digits :: "string \<Rightarrow> bool" where
  "bill_digits b \<longleftrightarrow> (length b = 3 \<or> length b = 4) \<and> list_all is_digit b"

text \<open>Where a row comes from: a session whose listing succeeded, one of its completed
  futures, and the qualifying record that future returned.\<close>

definition row_from :: "world \<Rightarrow> int set \<Rightarrow> string \<times> string \<Rightarrow> row \<Rightarrow> bool" where
  "row_from w years s r \<longleftrightarrow>
     (\<exists>files url i. list_bill_files w (fst s) (snd s) = Inr files
        \<and> url \<in> set (as_completed w (fst s) files)
        \<and> parse_bill_page w url = Inr i \<and> qualifies years i \<and> r = new_row (fst s) i)"


text \<open>
  The year phrase in the words of the specification: after the year come whitespace, one
  of the qualifiers Regular, 1st, 2nd, 3rd, whitespace and the word Session, in any case.
\<close>

definition session_phrase :: "string \<Rightarrow> bool" where
  "session_phrase t \<longleftrightarrow>
     (\<exists>ws1 q ws2 se rest. t = ws1 @ q @ ws2 @ se @ rest
        \<and> ws1 \<noteq> [] \<and> list_all is_space ws1
        \<and> lower q \<in> {''regular'', ''1st'', ''2nd'', ''3rd''}
        \<and> ws2 \<noteq> [] \<and> list_all is_space ws2
        \<and> lower se = ''session'')"

text \<open>A text that begins with a four-digit year 20dd followed by that phrase.\<close>

definition year_occurrence :: "string \<Rightarrow> bool" where
  "year_occurrence suf \<longleftrightarrow>
     (\<exists>d1 d2 t. suf = CHR ''2'' # CHR ''0'' # d1 # d2 # t \<and> is_digit d1 \<and> is_digit d2
        \<and> session_phrase t)"


text \<open>The year pattern after its group.\<close>

definition YEAR_tail :: "re list" where
  "YEAR_tail = [Rep [Space] 1 None, alts [str ''Regular'', str ''1st'', str ''2nd'', str ''3rd''],
     Rep [Space] 1 None, str ''Session'']"

text \<open>
  The bill phrase in the words of the specification: HOUSE, whitespace, BILL, whitespace
  and three or four digits, in any case, somewhere in the text.
\<close>

definition house_bill_phrase :: "string \<Rightarrow> bool" where
  "house_bill_phrase text \<longleftrightarrow>
     (\<exists>pre h ws1 b ws2 ds rest. text = pre @ h @ ws1 @ b @ ws2 @ ds @ rest
        \<and> lower h = ''house'' \<and> ws1 \<noteq> [] \<and> list_all is_space ws1
        \<and> lower b = ''bill'' \<and> ws2 \<noteq> [] \<and> list_all is_space ws2
        \<and> (length ds = 3 \<or> length ds = 4) \<and> list_all is_digit ds)"

definition starts_with_digit :: "string \<Rightarrow> bool" where
  "starts_with_digit s = (case s of [] \<Rightarrow> False | c # _ \<Rightarrow> is_digit c)"

text \<open>The summary URL of the specification, and Python's \<open>s or ""\<close>.\<close>

definition summary_template :: "string \<Rightarrow> int \<Rightarrow> string" where
  "summary_template n y = ''https://app.leg.wa.gov/BillSummary/?BillNumber='' @ n @ ''&Year=''
      @ str_int y @ ''&Initiative=false''"

definition or_empty :: "string option \<Rightarrow> string" where
  "or_empty s = (case s of None \<Rightarrow> [] | Some t \<Rightarrow> t)"




text \<open>A small world for concrete runs: one session lists two documents of the same
  bill, the other session's listing fails.\<close>

definition demo_sessions :: "(string \<times> string) list" where
  "demo_sessions = [(''2023-24'', ''https://x/a/''), (''2025-26'', ''https://x/b/'')]"

definition demo_world :: "(string list \<Rightarrow> string list) \<Rightarrow> world" where
  "demo_world order =
     \<lparr>get_soup = (\<lambda>u. if u = ''https://x/a/'' then Inr [Some ''1181.htm'', Some ''1181-S.htm'']
                     else Inl FetchError),
      urljoin = (\<lambda>b h. b @ h),
      http_get = (\<lambda>u. if u = ''https://x/a/1181.htm''
                       then Inr ''HOUSE BILL 1181 2024 Regular Session climate''
                     else if u = ''https://x/a/1181-S.htm''
                       then Inr ''SUBSTITUTE HOUSE BILL 1181 2024 Regular Session climate''
                     else Inl FetchError),
      unescape = (\<lambda>s. s),
      as_completed = (\<lambda>b. order)\<rparr>"


section \<open>Properties of the matcher\<close>

lemma after_Nil [simp]: "after pv [] = pv"
  by (simp add: after_def)

lemma after_Cons [simp]: "after pv (x # u) = after (Some x) u"
  by (simp add: after_def)

lemma after_append [simp]: "after pv (u @ v) = after (after pv u) v"
  by (simp add: after_def)

lemma advance_eq: "advance j (pv, s) = (after pv (take j s), drop j s)"
  by (induction j "(pv, s)" arbitrary: pv s rule: advance.induct) simp_all

lemma in_ms_Eps: "y \<in> set (ms ic Eps x) \<longleftrightarrow> y = x"
  by auto

lemma in_ms_One:
  "y \<in> set (ms ic (One as) ((pv, s), c)) \<longleftrightarrow>
     (\<exists>a t. s = a # t \<and> in_class ic as a \<and> y = ((Some a, t), c))"
  by (cases s) auto

lemma take_run:
  "j \<le> length (takeWhile P s) \<longleftrightarrow> j \<le> length s \<and> list_all P (take j s)"
proof (induction s arbitrary: j)
  case Nil
  then show ?case by simp
next
  case (Cons a s)
  then show ?case by (cases j) auto
qed

lemma set_upt_le: "set (rev [lo ..< Suc m]) = {j. lo \<le> j \<and> j \<le> m}"
  by auto

lemma set_ms_Rep:
  "set (ms ic (Rep as lo hi) ((pv, s), c)) =
     (\<lambda>j. (advance j (pv, s), c)) ` {j. lo \<le> j \<and> j \<le> length (takeWhile (in_class ic as) s)
        \<and> (case hi of None \<Rightarrow> True | Some h \<Rightarrow> j \<le> h)}"
proof (cases hi)
  case None
  show ?thesis unfolding ms.simps Let_def set_map set_upt_le None by simp
next
  case (Some h)
  have "{j. lo \<le> j \<and> j \<le> min h n} = {j. lo \<le> j \<and> j \<le> n \<and> j \<le> h}" for n :: nat
    by auto
  then show ?thesis unfolding ms.simps Let_def set_map set_upt_le Some by simp
qed

lemma in_ms_Rep:
  "y \<in> set (ms ic (Rep as lo hi) ((pv, s), c)) \<longleftrightarrow>
     (\<exists>u t. s = u @ t \<and> lo \<le> length u \<and> (case hi of None \<Rightarrow> True | Some h \<Rightarrow> length u \<le> h)
        \<and> list_all (in_class ic as) u \<and> y = ((after pv u, t), c))"
  (is "?L \<longleftrightarrow> ?R")
proof
  assume ?L
  then have "\<exists>j. (lo \<le> j \<and> j \<le> length (takeWhile (in_class ic as) s)
      \<and> (case hi of None \<Rightarrow> True | Some h \<Rightarrow> j \<le> h)) \<and> y = (advance j (pv, s), c)"
    by (simp only: set_ms_Rep image_iff Bex_def mem_Collect_eq)
  then obtain j where j: "lo \<le> j" "j \<le> length (takeWhile (in_class ic as) s)"
      "case hi of None \<Rightarrow> True | Some h \<Rightarrow> j \<le> h" "y = (advance j (pv, s), c)"
    by (elim exE conjE)
  from j(2) have js: "j \<le> length s" "list_all (in_class ic as) (take j s)"
    by (simp_all add: take_run)
  have 1: "s = take j s @ drop j s" by simp
  have 2: "length (take j s) = j" using js(1) by simp
  have 3: "y = ((after pv (take j s), drop j s), c)"
    using j(4) by (simp only: advance_eq)
  show ?R
    apply (rule exI[of _ "take j s"])
    apply (rule exI[of _ "drop j s"])
    apply (simp only: 2)
    using 1 3 j(1,3) js(2) apply (intro conjI)
        apply assumption+
    done
next
  assume ?R
  then obtain u t where u: "s = u @ t" "lo \<le> length u"
      "case hi of None \<Rightarrow> True | Some h \<Rightarrow> length u \<le> h"
      "list_all (in_class ic as) u" "y = ((after pv u, t), c)"
    by (elim exE conjE)
  have "length u \<le> length (takeWhile (in_class ic as) s)"
    using u(1,4) by (simp add: take_run)
  moreover have "advance (length u) (pv, s) = (after pv u, t)"
    using u(1) by (simp add: advance_eq)
  ultimately have "(lo \<le> length u \<and> length u \<le> length (takeWhile (in_class ic as) s)
      \<and> (case hi of None \<Rightarrow> True | Some h \<Rightarrow> length u \<le> h)) \<and> y = (advance (length u) (pv, s), c)"
    using u(2,3,5) by simp
  then show ?L
    apply (simp only: set_ms_Rep image_iff Bex_def mem_Collect_eq)
    apply (rule exI[of _ "length u"])
    apply simp
    done
qed

lemma in_ms_Bnd: "y \<in> set (ms ic Bnd x) \<longleftrightarrow> at_boundary (fst x) \<and> y = x"
  by (subst ms.simps, cases "at_boundary (fst x)") simp_all

lemma in_ms_Eos: "y \<in> set (ms ic Eos x) \<longleftrightarrow> at_end (fst x) \<and> y = x"
  by (subst ms.simps, cases "at_end (fst x)") simp_all

lemma in_ms_Cat:
  "y \<in> set (ms ic (Cat a b) x) \<longleftrightarrow> (\<exists>z \<in> set (ms ic a x). y \<in> set (ms ic b z))"
  by auto

lemma in_ms_Alt:
  "y \<in> set (ms ic (Alt a b) x) \<longleftrightarrow> y \<in> set (ms ic a x) \<or> y \<in> set (ms ic b x)"
  by auto

lemma in_ms_Grp:
  "y \<in> set (ms ic (Grp n a) ((pv, s), c)) \<longleftrightarrow>
     (\<exists>p' c'. (p', c') \<in> set (ms ic a ((pv, s), c))
        \<and> y = (p', c'(n \<mapsto> take (length s - length (snd p')) s)))"
proof -
  have "y \<in> set (ms ic (Grp n a) ((pv, s), c)) \<longleftrightarrow>
     (\<exists>x \<in> set (ms ic a ((pv, s), c)).
        y = (fst x, (snd x)(n \<mapsto> take (length s - length (snd (fst x))) s)))"
    unfolding ms.simps set_map image_iff by (simp add: split_def)
  also have "\<dots> \<longleftrightarrow> (\<exists>p' c'. (p', c') \<in> set (ms ic a ((pv, s), c))
        \<and> y = (p', c'(n \<mapsto> take (length s - length (snd p')) s)))"
    by (simp add: Bex_def)
  finally show ?thesis .
qed

lemma concat_singletons: "concat (map (\<lambda>x. [x]) xs) = xs"
  by (induction xs) simp_all

lemma ms_Eps_fun: "ms ic Eps = (\<lambda>x. [x])"
  by (rule ext) simp

lemma ms_seq_Cons: "ms ic (seq (r # rs)) x = ms ic (Cat r (seq rs)) x"
  by (cases rs) (simp_all add: ms_Eps_fun concat_singletons)

lemma in_ms_seq_Cons:
  "y \<in> set (ms ic (seq (r # rs)) x) \<longleftrightarrow> (\<exists>z \<in> set (ms ic r x). y \<in> set (ms ic (seq rs) z))"
  unfolding ms_seq_Cons by (rule in_ms_Cat)

lemma in_ms_seq_Nil: "y \<in> set (ms ic (seq []) x) \<longleftrightarrow> y = x"
  by simp

lemma in_class_Lit [simp]: "in_class ic [Lit l] c = lit_match ic l c"
  by (simp add: in_class_def)

lemma in_ms_str:
  "y \<in> set (ms ic (str w) ((pv, s), c)) \<longleftrightarrow>
     (\<exists>u t. s = u @ t \<and> list_all2 (lit_match ic) w u \<and> y = ((after pv u, t), c))"
proof (induction w arbitrary: pv s)
  case Nil
  show ?case by (auto simp: str_def)
next
  case (Cons l w)
  have "y \<in> set (ms ic (str (l # w)) ((pv, s), c)) \<longleftrightarrow>
      (\<exists>z \<in> set (ms ic (One [Lit l]) ((pv, s), c)). y \<in> set (ms ic (str w) z))"
    unfolding str_def list.map by (rule in_ms_seq_Cons)
  also have "\<dots> \<longleftrightarrow> (\<exists>a t. s = a # t \<and> lit_match ic l a \<and> y \<in> set (ms ic (str w) ((Some a, t), c)))"
    by (auto simp: in_ms_One)
  also have "\<dots> \<longleftrightarrow> (\<exists>a t. s = a # t \<and> lit_match ic l a \<and>
       (\<exists>u t'. t = u @ t' \<and> list_all2 (lit_match ic) w u \<and> y = ((after (Some a) u, t'), c)))"
    unfolding Cons.IH ..
  also have "\<dots> \<longleftrightarrow> (\<exists>u t. s = u @ t \<and> list_all2 (lit_match ic) (l # w) u \<and> y = ((after pv u, t), c))"
    (is "?A \<longleftrightarrow> ?B")
  proof
    assume ?A
    then obtain a t u t' where "s = a # t" "lit_match ic l a" "t = u @ t'"
       "list_all2 (lit_match ic) w u" "y = ((after (Some a) u, t'), c)" by blast
    then show ?B by (intro exI[of _ "a # u"] exI[of _ t']) simp
  next
    assume ?B
    then obtain u t where u: "s = u @ t" "list_all2 (lit_match ic) (l # w) u" "y = ((after pv u, t), c)"
      by blast
    from u(2) obtain a u' where "u = a # u'" "lit_match ic l a" "list_all2 (lit_match ic) w u'"
      by (auto simp: list_all2_Cons1)
    with u show ?A by simp
  qed
  finally show ?case .
qed

text \<open>Where a search result comes from.\<close>

lemma match_at_SomeD:
  "match_at ic r p = Some m \<Longrightarrow> \<exists>p'. (p', m) \<in> set (ms ic r (p, Map.empty))"
proof (cases "ms ic r (p, Map.empty)")
  case Nil
  assume "match_at ic r p = Some m"
  with Nil show ?thesis by (simp add: match_at_def)
next
  case (Cons x xs)
  assume "match_at ic r p = Some m"
  with Cons have "snd x = m" by (simp add: match_at_def)
  then have "(fst x, m) \<in> set (ms ic r (p, Map.empty))"
    using Cons by (cases x) simp
  then show ?thesis ..
qed

lemma match_at_None_iff: "match_at ic r p = None \<longleftrightarrow> ms ic r (p, Map.empty) = []"
  by (simp add: match_at_def split: list.splits)

lemma scan_SomeD:
  "scan ic r pv s = Some m \<Longrightarrow>
     \<exists>pre suf. s = pre @ suf \<and> match_at ic r (after pv pre, suf) = Some m
       \<and> (\<forall>pre' suf'. s = pre' @ suf' \<and> length pre' < length pre
             \<longrightarrow> match_at ic r (after pv pre', suf') = None)"
proof (induction s arbitrary: pv)
  case Nil
  then show ?case by simp
next
  case (Cons x xs)
  show ?case
  proof (cases "match_at ic r (pv, x # xs)")
    case (Some c)
    with Cons.prems have "c = m" by simp
    with Some show ?thesis
      by (intro exI[of _ "[]"] exI[of _ "x # xs"]) simp
  next
    case None
    with Cons.prems have "scan ic r (Some x) xs = Some m" by simp
    from Cons.IH[OF this] obtain pre suf where ps: "xs = pre @ suf"
      "match_at ic r (after (Some x) pre, suf) = Some m"
      "\<forall>pre' suf'. xs = pre' @ suf' \<and> length pre' < length pre
             \<longrightarrow> match_at ic r (after (Some x) pre', suf') = None" by blast
    have "match_at ic r (after pv pre', suf') = None"
      if "x # xs = pre' @ suf'" "length pre' < length (x # pre)" for pre' suf'
    proof (cases pre')
      case Nil
      with that None show ?thesis by simp
    next
      case (Cons a p)
      with that ps(3) show ?thesis by simp
    qed
    with ps(1,2) show ?thesis
      by (intro exI[of _ "x # pre"] exI[of _ suf]) simp
  qed
qed


lemma scan_first:
  assumes "s = pre @ suf" "match_at ic r (after pv pre, suf) = Some m"
    and "\<And>pre' suf'. s = pre' @ suf' \<Longrightarrow> length pre' < length pre
             \<Longrightarrow> match_at ic r (after pv pre', suf') = None"
  shows "scan ic r pv s = Some m"
  using assms
proof (induction pre arbitrary: s pv)
  case Nil
  then have "match_at ic r (pv, s) = Some m" by simp
  then show ?case by (cases s) simp_all
next
  case (Cons x pre)
  have s: "s = x # (pre @ suf)" using Cons.prems(1) by simp
  have "match_at ic r (pv, s) = None"
    using Cons.prems(3)[of "[]" s] by simp
  moreover have "scan ic r (Some x) (pre @ suf) = Some m"
  proof (rule Cons.IH[OF refl])
    show "match_at ic r (after (Some x) pre, suf) = Some m"
      using Cons.prems(2) by simp
    fix pre' suf' assume "pre @ suf = pre' @ suf'" "length pre' < length pre"
    then show "match_at ic r (after (Some x) pre', suf') = None"
      using Cons.prems(3)[of "x # pre'" suf'] s by simp
  qed
  ultimately show ?case by (simp add: s)
qed


section \<open>The file-name pattern\<close>

lemmas in_ms = in_ms_seq_Cons in_ms_seq_Nil in_ms_str in_ms_Rep in_ms_Bnd in_ms_Eos in_ms_Grp
  in_ms_Alt in_ms_One in_ms_Eps in_ms_Cat

lemma in_class_Digit [simp]: "in_class ic [Digit] = is_digit"
  by (rule ext) (simp add: in_class_def)

lemma in_class_Space [simp]: "in_class ic [Space] = is_space"
  by (rule ext) (simp add: in_class_def)

lemma in_class_fn [simp]: "in_class False [Lit CHR ''-'', WordCh] = fn_char"
  by (rule ext) (auto simp: in_class_def fn_char_def lit_match_def)

lemma slash_not_digit: "\<not> is_digit CHR ''/''"
  by (simp add: is_digit_def code_def)

lemma slash_not_fn: "\<not> fn_char CHR ''/''"
  by (simp add: fn_char_def is_word_def code_def)

lemma dot_not_fn: "\<not> fn_char CHR ''.''"
  by (simp add: fn_char_def is_word_def code_def)

lemma digit_fn: "is_digit c \<Longrightarrow> fn_char c"
  by (auto simp: fn_char_def is_word_def is_digit_def Let_def)

lemma FILENAME_shape:
  assumes "(p', m) \<in> set (ms False FILENAME_RE ((pv, s), c))"
  shows "\<exists>ds w e. s = ''/'' @ ds @ w @ ''.htm'' @ e \<and> list_all is_digit ds
     \<and> (length ds = 3 \<or> length ds = 4) \<and> list_all fn_char w \<and> (e = [] \<or> e = [CHR 0x0A])
     \<and> m = c(1 \<mapsto> ds)"
proof -
  from assms obtain u ua be where *: "s = CHR ''/'' # u @ ua @ ''.htm'' @ be"
     "3 \<le> length u" "list_all fn_char ua" "length u \<le> 4" "m = c(1 \<mapsto> u)"
     "be = [] \<or> be = [CHR 0x0A]" "list_all is_digit u"
    by (clarsimp simp: FILENAME_RE_def in_ms Bex_def at_end_def lit_match_def list_all2_Cons1
        simp del: ms.simps)
  from *(2,4) have "length u = 3 \<or> length u = 4" by arith
  with * show ?thesis
    by (intro exI[of _ u] exI[of _ ua] exI[of _ be]) simp
qed

text \<open>Nothing after the first character of a file-name match is a slash.\<close>

lemma FILENAME_no_slash:
  assumes "(p', m) \<in> set (ms False FILENAME_RE ((pv, x # s), c))"
  shows "CHR ''/'' \<notin> set s"
proof -
  from FILENAME_shape[OF assms] obtain ds w e where *:
    "x # s = ''/'' @ ds @ w @ ''.htm'' @ e" "list_all is_digit ds" "list_all fn_char w"
    "e = [] \<or> e = [CHR 0x0A]" by blast
  have "CHR ''/'' \<notin> set ds" using *(2) slash_not_digit by (auto simp: list_all_iff)
  moreover have "CHR ''/'' \<notin> set w" using *(3) slash_not_fn by (auto simp: list_all_iff)
  moreover have "CHR ''/'' \<notin> set e" using *(4) by auto
  moreover have "s = ds @ w @ ''.htm'' @ e" using *(1) by simp
  ultimately show ?thesis by simp
qed

lemma rev_upt_Suc: "lo \<le> m \<Longrightarrow> rev [lo ..< Suc m] = m # rev [lo ..< m]"
  by simp

lemma takeWhile_all_stop:
  "list_all P w \<Longrightarrow> \<not> P x \<Longrightarrow> takeWhile P (w @ x # r) = w"
  by (induction w) simp_all

text \<open>The tail of the file-name pattern, \<open>[-\w]*\.htm$\<close>, on a name of such characters.\<close>

lemma FILENAME_tail:
  assumes "list_all fn_char w"
  shows "\<exists>rest. ms False (seq [Rep [Lit CHR ''-'', WordCh] 0 None, str ''.htm'', Eos])
            ((pv, w @ ''.htm''), c) = ((Some CHR ''m'', []), c) # rest"
proof -
  have run: "takeWhile fn_char (w @ ''.htm'') = w"
    using assms dot_not_fn by (simp add: takeWhile_all_stop)
  have adv: "advance (length w) (pv, w @ ''.htm'') = (after pv w, ''.htm'')"
    by (simp add: advance_eq)
  have "ms False (Rep [Lit CHR ''-'', WordCh] 0 None) ((pv, w @ ''.htm''), c)
        = map (\<lambda>j. (advance j (pv, w @ ''.htm''), c)) (rev [0 ..< Suc (length w)])"
    by (simp add: run del: upt_Suc)
  also have "rev [0 ..< Suc (length w)] = length w # rev [0 ..< length w]"
    by simp
  finally have 1: "ms False (Rep [Lit CHR ''-'', WordCh] 0 None) ((pv, w @ ''.htm''), c)
        = ((after pv w, ''.htm''), c) # map (\<lambda>j. (advance j (pv, w @ ''.htm''), c)) (rev [0 ..< length w])"
    by (simp only: list.map adv)
  have 2: "ms False (seq [str ''.htm'', Eos]) ((after pv w, ''.htm''), c) = [((Some CHR ''m'', []), c)]"
    by (simp add: str_def in_class_def lit_match_def at_end_def)
  show ?thesis
    unfolding ms_seq_Cons[of _ "Rep _ _ _"] ms.simps(6) 1 using 2 by simp
qed


lemma takeWhile_append_stop:
  "\<not> P x \<Longrightarrow> takeWhile P (w @ x # r) = takeWhile P w"
  by (induction w) simp_all

text \<open>The file-name pattern on \<open>/body.htm\<close>: the group takes four digits when the name
  starts with four, else three.\<close>

lemma FILENAME_match:
  assumes body: "list_all fn_char body"
    and run: "3 \<le> length (takeWhile is_digit body)"
  shows "match_at False FILENAME_RE (pv, ''/'' @ body @ ''.htm'')
           = Some [1 \<mapsto> take (min 4 (length (takeWhile is_digit body))) body]"
proof -
  define n where "n = length (takeWhile is_digit body)"
  define m where "m = min 4 n"
  define t where "t = body @ ''.htm''"
  define tail where "tail = [Rep [Lit CHR ''-'', WordCh] 0 None, str ''.htm'', Eos]"
  have nlen: "n \<le> length body" unfolding n_def by (rule length_takeWhile_le)
  have m3: "3 \<le> m" "m \<le> length body" using run nlen unfolding m_def n_def by simp_all
  have runt: "length (takeWhile is_digit t) = n"
    unfolding t_def n_def by (simp add: takeWhile_append_stop is_digit_def code_def)
  have adv: "advance m (Some CHR ''/'', t) = (after (Some CHR ''/'') (take m body), drop m body @ ''.htm'')"
    using m3(2) by (simp add: advance_eq t_def)
  have "ms False (Rep [Digit] 3 (Some 4)) ((Some CHR ''/'', t), Map.empty)
      = map (\<lambda>j. (advance j (Some CHR ''/'', t), Map.empty)) (rev [3 ..< Suc m])"
    by (simp add: runt m_def del: upt_Suc)
  also have "rev [3 ..< Suc m] = m # rev [3 ..< m]"
    using m3(1) by simp
  finally have rep: "ms False (Rep [Digit] 3 (Some 4)) ((Some CHR ''/'', t), Map.empty)
      = ((after (Some CHR ''/'') (take m body), drop m body @ ''.htm''), Map.empty)
        # map (\<lambda>j. (advance j (Some CHR ''/'', t), Map.empty)) (rev [3 ..< m])"
    by (simp only: list.map adv)
  have cap: "take (length t - length (drop m body @ ''.htm'')) t = take m body"
    using m3(2) by (simp add: t_def)
  define gs where "gs = map (\<lambda>(p', c'). (p', c'(1::nat \<mapsto> take (length t - length (snd p')) t)))
      (map (\<lambda>j. (advance j (Some CHR ''/'', t), Map.empty :: caps)) (rev [3 ..< m]))"
  have grp: "ms False (Grp 1 (Rep [Digit] 3 (Some 4))) ((Some CHR ''/'', t), Map.empty)
      = ((after (Some CHR ''/'') (take m body), drop m body @ ''.htm''), [1 \<mapsto> take m body]) # gs"
    by (simp only: ms.simps(8) rep list.map prod.case fst_conv snd_conv cap gs_def)
  have "list_all fn_char (drop m body)"
    using body by (auto simp: list_all_iff dest: in_set_dropD)
  from FILENAME_tail[OF this] obtain rest where
    tl: "ms False (seq tail) ((after (Some CHR ''/'') (take m body), drop m body @ ''.htm''),
           [1 \<mapsto> take m body]) = ((Some CHR ''m'', []), [1 \<mapsto> take m body]) # rest"
    unfolding tail_def by blast
  have slash: "ms False (str ''/'') ((pv, CHR ''/'' # t), Map.empty) = [((Some CHR ''/'', t), Map.empty)]"
    by (simp add: str_def in_class_def lit_match_def)
  have fn: "FILENAME_RE = seq (str ''/'' # Grp 1 (Rep [Digit] 3 (Some 4)) # tail)"
    by (simp add: FILENAME_RE_def tail_def)
  have "ms False FILENAME_RE ((pv, CHR ''/'' # t), Map.empty)
      = concat (map (ms False (seq (Grp 1 (Rep [Digit] 3 (Some 4)) # tail)))
          (ms False (str ''/'') ((pv, CHR ''/'' # t), Map.empty)))"
    by (simp only: fn ms_seq_Cons ms.simps(6))
  also have "\<dots> = ms False (seq (Grp 1 (Rep [Digit] 3 (Some 4)) # tail)) ((Some CHR ''/'', t), Map.empty)"
    by (simp only: slash list.map concat.simps append_Nil2)
  also have "\<dots> = concat (map (ms False (seq tail)) (ms False (Grp 1 (Rep [Digit] 3 (Some 4)))
           ((Some CHR ''/'', t), Map.empty)))"
    by (simp only: ms_seq_Cons ms.simps(6))
  also have "\<dots> = ((Some CHR ''m'', []), [1 \<mapsto> take m body]) # rest @ concat (map (ms False (seq tail)) gs)"
    by (simp only: grp list.map concat.simps tl append.simps)
  finally show ?thesis
    by (simp add: match_at_def t_def m_def n_def)
qed


section \<open>Characters, case folding and captures\<close>

lemma lower_char_eq: "lower_char c = (if is_upper c then char_of (code c + 32) else c)"
  by (simp add: lower_char_def Let_def is_upper_def)

lemma code_char_of: "code (char_of n) = n mod 256"
  by (simp add: code_def)

lemma code_lower_char: "code (lower_char c) = (if is_upper c then code c + 32 else code c)"
proof (cases "is_upper c")
  case True
  then have "code c + 32 < 256" by (auto simp: is_upper_def)
  with True show ?thesis by (simp add: lower_char_eq code_char_of)
next
  case False
  then show ?thesis by (simp add: lower_char_eq)
qed

lemma lower_char_digit:
  assumes "lower_char c = l" "is_digit l"
  shows "c = l"
proof (cases "is_upper c")
  case True
  have "code l = code c + 32" using assms(1) True code_lower_char[of c] by simp
  with True assms(2) show ?thesis by (auto simp: is_digit_def is_upper_def)
next
  case False
  with assms(1) show ?thesis by (simp add: lower_char_eq)
qed

lemma lower_char_of_digit: "is_digit l \<Longrightarrow> lower_char l = l"
proof -
  assume "is_digit l"
  then have "\<not> is_upper l" unfolding is_digit_def is_upper_def by arith
  then show ?thesis by (simp only: lower_char_eq if_False)
qed

lemma lit_match_digit:
  assumes "lit_match True l c" "is_digit l"
  shows "c = l"
proof -
  have "lower_char c = lower_char l" using assms(1) unfolding lit_match_def by simp
  then have "lower_char c = l" using lower_char_of_digit[OF assms(2)] by simp
  then show ?thesis using assms(2) by (rule lower_char_digit)
qed

lemma lit_match_lower: "list_all2 (lit_match True) w u \<longleftrightarrow> lower u = lower w"
proof (induction w arbitrary: u)
  case Nil
  then show ?case by (simp add: lower_def)
next
  case (Cons l w)
  show ?case
  proof (cases u)
    case Nil
    then show ?thesis by (simp add: lower_def)
  next
    case (Cons c u')
    have "list_all2 (lit_match True) (l # w) (c # u') \<longleftrightarrow>
        lit_match True l c \<and> list_all2 (lit_match True) w u'" by simp
    also have "\<dots> \<longleftrightarrow> lower_char c = lower_char l \<and> lower u' = lower w"
      unfolding Cons.IH by (simp add: lit_match_def)
    also have "\<dots> \<longleftrightarrow> lower (c # u') = lower (l # w)"
      by (simp add: lower_def)
    finally show ?thesis unfolding Cons .
  qed
qed

lemma search_SomeD:
  "search ic r s = Some m \<Longrightarrow> \<exists>pv suf p'. (p', m) \<in> set (ms ic r ((pv, suf), Map.empty))"
  unfolding search_def by (blast dest: scan_SomeD match_at_SomeD)


lemma nogrp_seq: "list_all nogrp rs \<Longrightarrow> nogrp (seq rs)"
  by (induction rs rule: seq.induct) simp_all

lemma nogrp_alts: "list_all nogrp rs \<Longrightarrow> nogrp (alts rs)"
  by (induction rs rule: alts.induct) simp_all

lemma nogrp_str: "nogrp (str w)"
  unfolding str_def by (rule nogrp_seq) (simp add: list_all_iff)

lemma ms_nogrp: "nogrp r \<Longrightarrow> y \<in> set (ms ic r x) \<Longrightarrow> snd y = snd x"
proof (induction r arbitrary: x y)
  case (One as)
  then show ?case by (cases x; cases "snd (fst x)") (auto split: if_splits)
next
  case (Rep as lo hi)
  then show ?case by (cases x) (auto simp: Let_def)
next
  case Bnd
  then show ?case by (auto split: if_splits)
next
  case Eos
  then show ?case by (auto split: if_splits)
next
  case (Cat a b)
  from Cat.prems(2) obtain z where z: "z \<in> set (ms ic a x)" "y \<in> set (ms ic b z)"
    unfolding in_ms_Cat by blast
  from Cat.prems(1) have "nogrp a" "nogrp b" by simp_all
  then have "snd z = snd x" "snd y = snd z"
    using Cat.IH z by blast+
  then show ?case by simp
qed auto


section \<open>The aggregation loop\<close>

lemma consume_fail [simp]: "consume years biennium st (Inl e) = st"
  by (simp add: consume_def)

lemma consume_unqualified: "\<not> qualifies years i \<Longrightarrow> consume years biennium st (Inr i) = st"
  by (auto simp: consume_def qualifies_def)

lemma consume_qualified:
  "qualifies years i \<Longrightarrow> consume years biennium st (Inr i) =
     (if (biennium, the (year i), the (bill_number i)) \<in> snd st then st
      else (fst st @ [new_row biennium i],
            insert (biennium, the (year i), the (bill_number i)) (snd st)))"
  by (auto simp: consume_def qualifies_def new_row_def Let_def)






text \<open>Sorting.\<close>

lemma keyed_rows: "keyed rows = Inr krs \<Longrightarrow> map snd krs = rows"
  by (induction rows arbitrary: krs) (auto split: sum.splits)


lemma sort_rows_mset: "sort_rows rows = Inr out \<Longrightarrow> mset out = mset rows"
proof -
  assume a: "sort_rows rows = Inr out"
  then obtain krs where k: "keyed rows = Inr krs" "out = map snd (sort_key fst krs)"
    by (auto simp: sort_rows_def split: sum.splits)
  have "mset out = image_mset snd (mset (sort_key fst krs))" using k(2) by simp
  also have "\<dots> = mset (map snd krs)" by simp
  finally show ?thesis using keyed_rows[OF k(1)] by simp
qed

lemma sort_rows_set: "sort_rows rows = Inr out \<Longrightarrow> set out = set rows"
  by (metis sort_rows_mset set_mset_mset)



section \<open>What the extractor returns, and where rows come from\<close>

lemma BILLNUM_capture:
  assumes "(p', m) \<in> set (ms True BILLNUM_RE ((pv, s), Map.empty))"
  shows "\<exists>ds. m 1 = Some ds \<and> (length ds = 3 \<or> length ds = 4) \<and> list_all is_digit ds"
  using assms
  by (clarsimp simp: BILLNUM_RE_def in_ms Bex_def simp del: ms.simps)

lemma search_BILLNUM: "search True BILLNUM_RE text = Some m \<Longrightarrow> bill_digits (m_group m 1)"
proof -
  assume "search True BILLNUM_RE text = Some m"
  from search_SomeD[OF this] obtain pv suf p' where
    "(p', m) \<in> set (ms True BILLNUM_RE ((pv, suf), Map.empty))" by blast
  from BILLNUM_capture[OF this] show ?thesis
    by (auto simp: bill_digits_def m_group_def)
qed

lemma search_FILENAME: "search False FILENAME_RE url = Some m \<Longrightarrow> bill_digits (m_group m 1)"
proof -
  assume "search False FILENAME_RE url = Some m"
  from search_SomeD[OF this] obtain pv suf p' where
    "(p', m) \<in> set (ms False FILENAME_RE ((pv, suf), Map.empty))" by blast
  from FILENAME_shape[OF this] show ?thesis
    by (auto simp: bill_digits_def m_group_def)
qed

lemma parse_bill_number:
  assumes "parse_bill_text w url text = Inr i"
  shows "bill_number i =
     (case search True BILLNUM_RE text of
        Some n \<Rightarrow> Some (m_group n 1)
      | None \<Rightarrow> (case search False FILENAME_RE url of
                   Some mfn \<Rightarrow> Some (m_group mfn 1)
                 | None \<Rightarrow> None))"
    and "bill_text_url i = url"
    and "matched i = list_ex (\<lambda>k. search True k (lower text) \<noteq> None) KEYWORDS"
  using assms unfolding parse_bill_text_def Let_def
  by (auto split: sum.splits option.splits)

lemma parse_bill_digits:
  assumes "parse_bill_text w url text = Inr i" "bill_number i = Some b"
  shows "bill_digits b"
  using assms(2) unfolding parse_bill_number(1)[OF assms(1)]
  by (auto split: option.splits dest: search_BILLNUM search_FILENAME)

lemma parse_page_digits:
  assumes "parse_bill_page w url = Inr i" "bill_number i = Some b"
  shows "bill_digits b"
  using assms unfolding parse_bill_page_def
  by (auto split: sum.splits dest: parse_bill_digits)


lemma consume_rows:
  "set (fst (consume years biennium st res)) \<subseteq>
     set (fst st) \<union> {new_row biennium i | i. res = Inr i \<and> qualifies years i}"
proof (cases res)
  case (Inl e)
  then show ?thesis by simp
next
  case (Inr i)
  then show ?thesis
    by (cases "qualifies years i") (auto simp: consume_qualified consume_unqualified)
qed

lemma drain_rows:
  "set (fst (drain years biennium st results)) \<subseteq>
     set (fst st) \<union> {new_row biennium i | i. Inr i \<in> set results \<and> qualifies years i}"
  unfolding drain_def
proof (induction results arbitrary: st)
  case Nil
  then show ?case by simp
next
  case (Cons res results)
  have "set (fst (foldl (consume years biennium) (consume years biennium st res) results))
      \<subseteq> set (fst (consume years biennium st res))
        \<union> {new_row biennium i | i. Inr i \<in> set results \<and> qualifies years i}"
    by (rule Cons.IH)
  also have "\<dots> \<subseteq> (set (fst st) \<union> {new_row biennium i | i. res = Inr i \<and> qualifies years i})
        \<union> {new_row biennium i | i. Inr i \<in> set results \<and> qualifies years i}"
    using consume_rows[of years biennium st res] by blast
  also have "\<dots> \<subseteq> set (fst st)
        \<union> {new_row biennium i | i. Inr i \<in> set (res # results) \<and> qualifies years i}"
    by auto
  finally show ?case by simp
qed

lemma scan_session_rows:
  "set (fst (scan_session w years st s)) \<subseteq> set (fst st) \<union> {r. row_from w years s r}"
proof (cases "list_bill_files w (fst s) (snd s)")
  case (Inl e)
  then show ?thesis by (simp add: scan_session_def)
next
  case (Inr files)
  have "set (fst (scan_session w years st s)) \<subseteq> set (fst st)
      \<union> {new_row (fst s) i | i. Inr i \<in> set (map (parse_bill_page w) (as_completed w (fst s) files))
            \<and> qualifies years i}"
    unfolding scan_session_def Inr sum.case by (rule drain_rows)
  also have "\<dots> \<subseteq> set (fst st) \<union> {r. row_from w years s r}"
    unfolding row_from_def using Inr by (auto simp: image_iff) (metis sym)
  finally show ?thesis .
qed

lemma foldl_session_rows:
  "set (fst (foldl (scan_session w years) st sessions)) \<subseteq>
     set (fst st) \<union> {r. \<exists>s \<in> set sessions. row_from w years s r}"
proof (induction sessions arbitrary: st)
  case Nil
  then show ?case by simp
next
  case (Cons s sessions)
  have "set (fst (foldl (scan_session w years) (scan_session w years st s) sessions))
      \<subseteq> set (fst (scan_session w years st s)) \<union> {r. \<exists>s \<in> set sessions. row_from w years s r}"
    by (rule Cons.IH)
  also have "\<dots> \<subseteq> (set (fst st) \<union> {r. row_from w years s r})
      \<union> {r. \<exists>s \<in> set sessions. row_from w years s r}"
    using scan_session_rows[of w years st s] by blast
  also have "\<dots> \<subseteq> set (fst st) \<union> {r. \<exists>s' \<in> set (s # sessions). row_from w years s' r}"
    by auto
  finally show ?case by simp
qed

lemma collect_rows:
  "r \<in> set (fst (collect sessions w years)) \<Longrightarrow> \<exists>s \<in> set sessions. row_from w years s r"
  using foldl_session_rows[of w years "([], {})" sessions] unfolding collect_def by auto

text \<open>The sort never raises.\<close>

lemma sub_nondigits_filter: "sub_nondigits s = filter is_digit s"
  by (simp add: sub_nondigits_def in_class_def)

lemma not_digit_HB: "sub_nondigits (''HB '' @ b) = filter is_digit b"
  by (simp add: sub_nondigits_filter is_digit_def code_def)

lemma sort_key_of_new_row:
  assumes "bill_digits b" "bill_number i = Some b"
  shows "sort_key_of (new_row biennium i) = Inr (the (year i), digits_value b)"
proof -
  have f: "filter is_digit b = b" using assms(1)
    by (simp add: bill_digits_def list_all_iff)
  have ne: "b \<noteq> []" using assms(1) by (auto simp: bill_digits_def)
  have d: "list_all is_digit b" using assms(1) by (simp add: bill_digits_def)
  have "row_bill_number (new_row biennium i) = ''HB '' @ b"
    using assms(2) by (simp add: new_row_def make_row_def)
  then have "sub_nondigits (row_bill_number (new_row biennium i)) = b"
    by (simp only: not_digit_HB f)
  moreover have "py_int b = Inr (digits_value b)"
    using ne d by (simp add: py_int_def)
  moreover have "row_year (new_row biennium i) = the (year i)"
    by (simp add: new_row_def make_row_def)
  ultimately show ?thesis
    by (simp add: sort_key_of_def)
qed

lemma keyed_total: "(\<forall>r \<in> set rows. \<exists>k. sort_key_of r = Inr k) \<Longrightarrow> \<exists>krs. keyed rows = Inr krs"
  by (induction rows) auto

lemma row_from_key:
  assumes "row_from w years s r"
  shows "\<exists>k. sort_key_of r = Inr k"
proof -
  from assms obtain i url where i: "parse_bill_page w url = Inr i" "qualifies years i"
      "r = new_row (fst s) i"
    unfolding row_from_def by blast
  from i(2) obtain b where b: "bill_number i = Some b"
    unfolding qualifies_def by (cases "bill_number i") auto
  from parse_page_digits[OF i(1) b] sort_key_of_new_row[OF _ b] i(3) show ?thesis by blast
qed

lemma main_on_total: "\<exists>rows. main_on sessions w years = Inr rows"
proof -
  have "\<forall>r \<in> set (fst (collect sessions w years)). \<exists>k. sort_key_of r = Inr k"
    using collect_rows row_from_key by blast
  from keyed_total[OF this] show ?thesis
    unfolding main_on_def sort_rows_def by auto
qed


section \<open>Sorting and failed listings\<close>









section \<open>The file-name search and the year pattern\<close>

lemma match_at_None_I:
  "(\<And>y. y \<notin> set (ms ic r (p, Map.empty))) \<Longrightarrow> match_at ic r p = None"
  unfolding match_at_None_iff by (cases "ms ic r (p, Map.empty)") auto

lemma FILENAME_search:
  assumes body: "list_all fn_char body"
    and run: "3 \<le> length (takeWhile is_digit body)"
  shows "search False FILENAME_RE (p @ ''/'' @ body @ ''.htm'')
           = Some [1 \<mapsto> take (min 4 (length (takeWhile is_digit body))) body]"
  unfolding search_def
proof (rule scan_first[where pre = p and suf = "''/'' @ body @ ''.htm''"])
  show "p @ ''/'' @ body @ ''.htm'' = p @ ''/'' @ body @ ''.htm''" ..
  show "match_at False FILENAME_RE (after None p, ''/'' @ body @ ''.htm'')
           = Some [1 \<mapsto> take (min 4 (length (takeWhile is_digit body))) body]"
    by (rule FILENAME_match[OF body run])
next
  fix pre' suf' assume eq: "p @ ''/'' @ body @ ''.htm'' = pre' @ suf'" and len: "length pre' < length p"
  from eq len obtain x xs where p: "p = pre' @ x # xs"
    by (metis append_eq_append_conv2 append_eq_conv_conj length_drop list.exhaust
        append_Nil2 length_append not_add_less1)
  with eq have suf': "suf' = x # (xs @ ''/'' @ body @ ''.htm'')" by simp
  show "match_at False FILENAME_RE (after None pre', suf') = None"
  proof (rule match_at_None_I)
    fix y
    show "y \<notin> set (ms False FILENAME_RE ((after None pre', suf'), Map.empty))"
    proof
      assume "y \<in> set (ms False FILENAME_RE ((after None pre', suf'), Map.empty))"
      then have "(fst y, snd y) \<in> set (ms False FILENAME_RE ((after None pre', x # (xs @ ''/'' @ body @ ''.htm'')), Map.empty))"
        unfolding suf' by simp
      from FILENAME_no_slash[OF this] show False by simp
    qed
  qed
qed

lemma lower_words:
  "lower ''Regular'' = ''regular''" "lower ''1st'' = ''1st''" "lower ''2nd'' = ''2nd''"
  "lower ''3rd'' = ''3rd''" "lower ''Session'' = ''session''"
  by code_simp+

lemma length_2E: "length u = 2 \<Longrightarrow> \<exists>a b. u = [a, b]"
  by (cases u; cases "tl u") auto

lemma in_ms_str_ci:
  "y \<in> set (ms True (str w) ((pv, s), c)) \<longleftrightarrow>
     (\<exists>u t. s = u @ t \<and> lower u = lower w \<and> y = ((after pv u, t), c))"
  unfolding in_ms_str lit_match_lower ..

lemma in_ms_spaces:
  "y \<in> set (ms ic (Rep [Space] 1 None) ((pv, s), c)) \<longleftrightarrow>
     (\<exists>u t. s = u @ t \<and> u \<noteq> [] \<and> list_all is_space u \<and> y = ((after pv u, t), c))"
proof -
  have "1 \<le> length u \<longleftrightarrow> u \<noteq> []" for u :: string by (cases u) simp_all
  then show ?thesis unfolding in_ms_Rep by simp
qed

lemma in_ms_quals:
  "y \<in> set (ms True (alts [str ''Regular'', str ''1st'', str ''2nd'', str ''3rd'']) ((pv, s), c)) \<longleftrightarrow>
     (\<exists>q t. s = q @ t \<and> lower q \<in> {''regular'', ''1st'', ''2nd'', ''3rd''}
        \<and> y = ((after pv q, t), c))"
  unfolding alts.simps in_ms_Alt in_ms_str_ci lower_words by blast

lemma YEAR_tail_iff:
  "(\<exists>y. y \<in> set (ms True (seq YEAR_tail) ((pv, t), c))) \<longleftrightarrow> session_phrase t"
  (is "?L \<longleftrightarrow> ?R")
proof
  assume ?L
  then obtain y where y: "y \<in> set (ms True (seq YEAR_tail) ((pv, t), c))" ..
  from y obtain z1 where z1: "z1 \<in> set (ms True (Rep [Space] 1 None) ((pv, t), c))"
      "y \<in> set (ms True (seq (tl YEAR_tail)) z1)"
    unfolding YEAR_tail_def list.sel in_ms_seq_Cons by blast
  from z1(1) obtain u t1 where u: "t = u @ t1" "u \<noteq> []" "list_all is_space u"
      "z1 = ((after pv u, t1), c)"
    unfolding in_ms_spaces by blast
  from z1(2) obtain z2 where z2:
      "z2 \<in> set (ms True (alts [str ''Regular'', str ''1st'', str ''2nd'', str ''3rd''])
                 ((after pv u, t1), c))"
      "y \<in> set (ms True (seq (tl (tl YEAR_tail))) z2)"
    unfolding YEAR_tail_def list.sel in_ms_seq_Cons u(4) by blast
  from z2(1) obtain q t2 where q: "t1 = q @ t2"
      "lower q \<in> {''regular'', ''1st'', ''2nd'', ''3rd''}"
      "z2 = ((after (after pv u) q, t2), c)"
    unfolding in_ms_quals by blast
  from z2(2) obtain z3 where z3:
      "z3 \<in> set (ms True (Rep [Space] 1 None) ((after (after pv u) q, t2), c))"
      "y \<in> set (ms True (str ''Session'') z3)"
    unfolding YEAR_tail_def list.sel in_ms_seq_Cons q(3) seq.simps in_ms_Cat by blast
  from z3(1) obtain ua t3 where ua: "t2 = ua @ t3" "ua \<noteq> []" "list_all is_space ua"
      "z3 = ((after (after (after pv u) q) ua, t3), c)"
    unfolding in_ms_spaces by blast
  from z3(2) obtain se rest where se: "t3 = se @ rest" "lower se = ''session''"
    unfolding ua(4) in_ms_str_ci lower_words by blast
  show ?R
    unfolding session_phrase_def
    using u(1,2,3) q(1,2) ua(1,2,3) se
    by (intro exI[of _ u] exI[of _ q] exI[of _ ua] exI[of _ se] exI[of _ rest]) simp
next
  assume ?R
  then obtain ws1 q ws2 se rest where *: "t = ws1 @ q @ ws2 @ se @ rest"
      "ws1 \<noteq> []" "list_all is_space ws1" "lower q \<in> {''regular'', ''1st'', ''2nd'', ''3rd''}"
      "ws2 \<noteq> []" "list_all is_space ws2" "lower se = ''session''"
    unfolding session_phrase_def by blast
  let ?p1 = "after pv ws1" let ?p2 = "after ?p1 q" let ?p3 = "after ?p2 ws2" let ?p4 = "after ?p3 se"
  have 1: "((?p1, q @ ws2 @ se @ rest), c) \<in> set (ms True (Rep [Space] 1 None) ((pv, t), c))"
    unfolding in_ms_spaces using *(1,2,3) by blast
  have 2: "((?p2, ws2 @ se @ rest), c) \<in> set (ms True
      (alts [str ''Regular'', str ''1st'', str ''2nd'', str ''3rd'']) ((?p1, q @ ws2 @ se @ rest), c))"
    unfolding in_ms_quals using *(4) by blast
  have 3: "((?p3, se @ rest), c) \<in> set (ms True (Rep [Space] 1 None) ((?p2, ws2 @ se @ rest), c))"
    unfolding in_ms_spaces using *(5,6) by blast
  have 4: "((?p4, rest), c) \<in> set (ms True (str ''Session'') ((?p3, se @ rest), c))"
    unfolding in_ms_str_ci lower_words using *(7) by blast
  have "((?p4, rest), c) \<in> set (ms True (seq YEAR_tail) ((pv, t), c))"
    unfolding YEAR_tail_def in_ms_seq_Cons seq.simps in_ms_Cat
    using 1 2 3 4 by blast
  then show ?L ..
qed

lemma YEAR_group:
  "(p1, c1) \<in> set (ms True (Grp 1 (seq [str ''20'', Rep [Digit] 2 (Some 2)])) ((pv, s), c)) \<longleftrightarrow>
     (\<exists>d1 d2 t. s = CHR ''2'' # CHR ''0'' # d1 # d2 # t \<and> is_digit d1 \<and> is_digit d2
        \<and> p1 = (Some d2, t) \<and> c1 = c(1 \<mapsto> [CHR ''2'', CHR ''0'', d1, d2]))"
  (is "?L \<longleftrightarrow> ?R")
proof
  assume ?L
  then obtain z za ua b where *: "c1 = c(1 \<mapsto> z # za # ua)" "p1 = (after (Some za) ua, b)"
     "s = z # za # ua @ b" "length ua = 2" "lit_match True CHR ''2'' z" "list_all is_digit ua"
     "lit_match True CHR ''0'' za"
    by (clarsimp simp: in_ms Bex_def list_all2_Cons1 simp del: ms.simps)
  from *(4) obtain d1 d2 where ua: "ua = [d1, d2]" using length_2E by blast
  have "z = CHR ''2''" "za = CHR ''0''"
    using *(5,7) by (simp_all add: lit_match_digit is_digit_def code_def)
  with * ua show ?R by simp
next
  assume ?R
  then obtain d1 d2 t where *: "s = CHR ''2'' # CHR ''0'' # d1 # d2 # t" "is_digit d1" "is_digit d2"
     "p1 = (Some d2, t)" "c1 = c(1 \<mapsto> [CHR ''2'', CHR ''0'', d1, d2])" by blast
  have 1: "((Some CHR ''0'', d1 # d2 # t), c) \<in> set (ms True (str ''20'') ((pv, s), c))"
    unfolding in_ms_str
    by (rule exI[of _ "''20''"], rule exI[of _ "d1 # d2 # t"]) (simp add: * lit_match_def)
  have 2: "((Some d2, t), c) \<in> set (ms True (Rep [Digit] 2 (Some 2)) ((Some CHR ''0'', d1 # d2 # t), c))"
    unfolding in_ms_Rep
    by (rule exI[of _ "[d1, d2]"], rule exI[of _ t]) (simp add: *)
  have "((Some d2, t), c) \<in> set (ms True (seq [str ''20'', Rep [Digit] 2 (Some 2)]) ((pv, s), c))"
    unfolding seq.simps in_ms_Cat using 1 2 by blast
  then have "((Some d2, t), c(1 \<mapsto> take (length s - length (snd (Some d2, t))) s))
      \<in> set (ms True (Grp 1 (seq [str ''20'', Rep [Digit] 2 (Some 2)])) ((pv, s), c))"
    unfolding in_ms_Grp by blast
  then show ?L using * by simp
qed

lemma YEAR_RE_split:
  "YEAR_RE = seq (Bnd # Grp 1 (seq [str ''20'', Rep [Digit] 2 (Some 2)]) # YEAR_tail)"
  by (simp add: YEAR_RE_def YEAR_tail_def)

lemma nogrp_YEAR_tail: "nogrp (seq YEAR_tail)"
  unfolding YEAR_tail_def
  by (intro nogrp_seq) (simp add: nogrp_str nogrp_alts)

lemma YEAR_sound:
  assumes "(p', m) \<in> set (ms True YEAR_RE ((pv, s), c))"
  shows "at_boundary (pv, s) \<and> year_occurrence s \<and> m = c(1 \<mapsto> take 4 s)"
proof -
  from assms obtain z1 where z1: "z1 \<in> set (ms True Bnd ((pv, s), c))"
      "(p', m) \<in> set (ms True (seq (Grp 1 (seq [str ''20'', Rep [Digit] 2 (Some 2)]) # YEAR_tail)) z1)"
    unfolding YEAR_RE_split in_ms_seq_Cons[of _ _ Bnd] by blast
  from z1(1) have b: "at_boundary (pv, s)" "z1 = ((pv, s), c)"
    unfolding in_ms_Bnd by simp_all
  from z1(2) have "\<exists>z \<in> set (ms True (Grp 1 (seq [str ''20'', Rep [Digit] 2 (Some 2)])) ((pv, s), c)).
      (p', m) \<in> set (ms True (seq YEAR_tail) z)"
    unfolding b(2) in_ms_seq_Cons[of _ _ "Grp _ _"] .
  then obtain z where z: "z \<in> set (ms True (Grp 1 (seq [str ''20'', Rep [Digit] 2 (Some 2)])) ((pv, s), c))"
      "(p', m) \<in> set (ms True (seq YEAR_tail) z)" ..
  obtain p1 c1 where zp: "z = (p1, c1)" by (cases z)
  note z2 = z[unfolded zp]
  from z2(1) obtain d1 d2 t where d: "s = CHR ''2'' # CHR ''0'' # d1 # d2 # t" "is_digit d1"
      "is_digit d2" "p1 = (Some d2, t)" "c1 = c(1 \<mapsto> [CHR ''2'', CHR ''0'', d1, d2])"
    unfolding YEAR_group by blast
  from z2(2) have "session_phrase t"
    unfolding d(4) using YEAR_tail_iff by blast
  moreover have "m = c1" using ms_nogrp[OF nogrp_YEAR_tail z2(2)] by simp
  ultimately show ?thesis
    using b(1) d unfolding year_occurrence_def by auto
qed



lemma year_digits:
  assumes "year_occurrence s"
  shows "py_int (take 4 s) = Inr (digits_value (take 4 s))"
    and "2000 \<le> digits_value (take 4 s)" and "digits_value (take 4 s) \<le> 2099"
proof -
  from assms obtain d1 d2 t where d: "s = CHR ''2'' # CHR ''0'' # d1 # d2 # t" "is_digit d1"
      "is_digit d2"
    unfolding year_occurrence_def by blast
  have t4: "take 4 s = [CHR ''2'', CHR ''0'', d1, d2]" unfolding d(1) by simp
  have c2: "code CHR ''2'' = 50" "code CHR ''0'' = 48" by (simp_all add: code_def)
  show "py_int (take 4 s) = Inr (digits_value (take 4 s))"
    unfolding t4 py_int_def using d(2,3) by (simp add: is_digit_def c2)
  have v: "digits_value (take 4 s) = 2000 + 10 * (int (code d1) - 48) + (int (code d2) - 48)"
    unfolding t4 digits_value_def by (simp add: c2)
  show "2000 \<le> digits_value (take 4 s)" "digits_value (take 4 s) \<le> 2099"
    unfolding v using d(2,3) by (auto simp: is_digit_def)
qed

lemma search_YEAR_Some:
  assumes "search True YEAR_RE text = Some m"
  shows "\<exists>s. year_occurrence s \<and> m = [1 \<mapsto> take 4 s]"
proof -
  from search_SomeD[OF assms] obtain pv suf p' where
    "(p', m) \<in> set (ms True YEAR_RE ((pv, suf), Map.empty))" by blast
  from YEAR_sound[OF this] show ?thesis by blast
qed

text \<open>The extractor always returns a record, and what its fields are.\<close>

lemma parse_bill_text_total:
  "\<exists>i. parse_bill_text w url text = Inr i
     \<and> year i = map_option (\<lambda>m. digits_value (m_group m 1)) (search True YEAR_RE text)
     \<and> bill_number i =
         (case search True BILLNUM_RE text of
            Some n \<Rightarrow> Some (m_group n 1)
          | None \<Rightarrow> (case search False FILENAME_RE url of
                       Some mfn \<Rightarrow> Some (m_group mfn 1)
                     | None \<Rightarrow> None))
     \<and> matched i = list_ex (\<lambda>k. search True k (lower text) \<noteq> None) KEYWORDS
     \<and> bill_text_url i = url"
proof (cases "search True YEAR_RE text")
  case None
  then show ?thesis unfolding parse_bill_text_def Let_def by simp
next
  case (Some m)
  from search_YEAR_Some[OF Some] obtain s where s: "year_occurrence s" "m = [1 \<mapsto> take 4 s]"
    by blast
  have "py_int (m_group m 1) = Inr (digits_value (m_group m 1))"
    using year_digits(1)[OF s(1)] unfolding s(2) m_group_def by simp
  then show ?thesis unfolding parse_bill_text_def Let_def Some by simp
qed

lemma parse_year_range:
  assumes "parse_bill_text w url text = Inr i" "year i = Some y"
  shows "2000 \<le> y \<and> y \<le> 2099"
proof -
  from parse_bill_text_total[of w url "text"] assms(1)
  have y: "year i = map_option (\<lambda>m. digits_value (m_group m 1)) (search True YEAR_RE text)"
    by auto
  with assms(2) obtain m where m: "search True YEAR_RE text = Some m" "y = digits_value (m_group m 1)"
    by (cases "search True YEAR_RE text") auto
  from search_YEAR_Some[OF m(1)] obtain s where s: "year_occurrence s" "m = [1 \<mapsto> take 4 s]"
    by blast
  have "m_group m 1 = take 4 s" unfolding s(2) m_group_def by simp
  with year_digits(2,3)[OF s(1)] m(2) show ?thesis by simp
qed





section \<open>The bill phrase, and small facts for the concrete runs\<close>

lemma lower_house: "lower ''HOUSE'' = ''house''" "lower ''BILL'' = ''bill''"
  by code_simp+

lemma BILLNUM_phrase:
  assumes "y \<in> set (ms True BILLNUM_RE ((pv, s), c))"
  shows "\<exists>h ws1 b ws2 ds rest. s = h @ ws1 @ b @ ws2 @ ds @ rest
        \<and> lower h = ''house'' \<and> ws1 \<noteq> [] \<and> list_all is_space ws1
        \<and> lower b = ''bill'' \<and> ws2 \<noteq> [] \<and> list_all is_space ws2
        \<and> (length ds = 3 \<or> length ds = 4) \<and> list_all is_digit ds"
proof -
  from assms obtain z1 where z1: "z1 \<in> set (ms True (str ''HOUSE'') ((pv, s), c))"
      "y \<in> set (ms True (seq [Rep [Space] 1 None, str ''BILL'', Rep [Space] 1 None,
         Grp 1 (Rep [Digit] 3 (Some 4)), Bnd]) z1)"
    unfolding BILLNUM_RE_def in_ms_seq_Cons[of _ _ Bnd] in_ms_seq_Cons[of _ _ "str _"] Bex_def
      in_ms_Bnd
    by blast
  from z1(1) obtain h t1 where h: "s = h @ t1" "lower h = ''house''" "z1 = ((after pv h, t1), c)"
    unfolding in_ms_str_ci lower_house by blast
  from z1(2) obtain z2 where z2: "z2 \<in> set (ms True (Rep [Space] 1 None) ((after pv h, t1), c))"
      "y \<in> set (ms True (seq [str ''BILL'', Rep [Space] 1 None,
         Grp 1 (Rep [Digit] 3 (Some 4)), Bnd]) z2)"
    unfolding h(3) in_ms_seq_Cons[of _ _ "Rep _ _ _"] by blast
  from z2(1) obtain ws1 t2 where w1: "t1 = ws1 @ t2" "ws1 \<noteq> []" "list_all is_space ws1"
      "z2 = ((after (after pv h) ws1, t2), c)"
    unfolding in_ms_spaces by blast
  from z2(2) obtain z3 where z3: "z3 \<in> set (ms True (str ''BILL'') ((after (after pv h) ws1, t2), c))"
      "y \<in> set (ms True (seq [Rep [Space] 1 None, Grp 1 (Rep [Digit] 3 (Some 4)), Bnd]) z3)"
    unfolding w1(4) in_ms_seq_Cons[of _ _ "str _"] by blast
  from z3(1) obtain b t3 where b: "t2 = b @ t3" "lower b = ''bill''"
      "z3 = ((after (after (after pv h) ws1) b, t3), c)"
    unfolding in_ms_str_ci lower_house by blast
  from z3(2) obtain z4 where z4:
      "z4 \<in> set (ms True (Rep [Space] 1 None) ((after (after (after pv h) ws1) b, t3), c))"
      "y \<in> set (ms True (seq [Grp 1 (Rep [Digit] 3 (Some 4)), Bnd]) z4)"
    unfolding b(3) in_ms_seq_Cons[of _ _ "Rep _ _ _"] by blast
  from z4(1) obtain ws2 t4 where w2: "t3 = ws2 @ t4" "ws2 \<noteq> []" "list_all is_space ws2"
      "z4 = ((after (after (after (after pv h) ws1) b) ws2, t4), c)"
    unfolding in_ms_spaces by blast
  from z4(2) obtain z5 where z5:
      "z5 \<in> set (ms True (Grp 1 (Rep [Digit] 3 (Some 4)))
                 ((after (after (after (after pv h) ws1) b) ws2, t4), c))"
    unfolding w2(4) in_ms_seq_Cons[of _ _ "Grp _ _"] by blast
  then obtain p5 c5 where "(p5, c5) \<in> set (ms True (Rep [Digit] 3 (Some 4))
                 ((after (after (after (after pv h) ws1) b) ws2, t4), c))"
    unfolding in_ms_Grp by blast
  then obtain ds rest where ds: "t4 = ds @ rest" "3 \<le> length ds" "length ds \<le> 4"
      "list_all is_digit ds"
    unfolding in_ms_Rep in_class_Digit option.case by blast
  from ds(2,3) have "length ds = 3 \<or> length ds = 4" by arith
  with h(1,2) w1(1,2,3) b(1,2) w2(1,2,3) ds(1,4) show ?thesis
    by (intro exI[of _ h] exI[of _ ws1] exI[of _ b] exI[of _ ws2] exI[of _ ds] exI[of _ rest]) simp
qed

lemma search_BILLNUM_phrase:
  assumes "search True BILLNUM_RE text \<noteq> None"
  shows "house_bill_phrase text"
proof -
  from assms obtain m where "scan True BILLNUM_RE None text = Some m"
    unfolding search_def by blast
  from scan_SomeD[OF this] obtain pre suf where ps: "text = pre @ suf"
      "match_at True BILLNUM_RE (after None pre, suf) = Some m" by blast
  from match_at_SomeD[OF ps(2)] obtain p' where
    "(p', m) \<in> set (ms True BILLNUM_RE ((after None pre, suf), Map.empty))" by blast
  from BILLNUM_phrase[OF this] ps(1) show ?thesis
    unfolding house_bill_phrase_def by blast
qed





lemma run_digits_ge:
  assumes "list_all is_digit ds"
  shows "length ds \<le> length (takeWhile is_digit (ds @ r))"
  using assms by (induction ds) simp_all

lemma run_digits_eq:
  assumes "list_all is_digit ds" "\<not> starts_with_digit r"
  shows "takeWhile is_digit (ds @ r) = ds"
proof -
  have "takeWhile is_digit r = []"
    using assms(2) by (cases r) (simp_all add: starts_with_digit_def)
  with assms(1) show ?thesis by (induction ds) simp_all
qed

lemma list_all_digit_fn: "list_all is_digit ds \<Longrightarrow> list_all fn_char ds"
  by (auto simp: list_all_iff digit_fn)


lemma no_phrase_empty: "\<not> house_bill_phrase []"
  by (auto simp: house_bill_phrase_def lower_def)

lemma search_empty: "search True BILLNUM_RE [] = None" "search False FILENAME_RE ''u'' = None"
  by code_simp+



section \<open>Fields of the records the extractor returns\<close>

lemma parse_page_fields:
  assumes "parse_bill_page w url = Inr i"
  shows "(\<forall>b. bill_number i = Some b \<longrightarrow> b \<noteq> []) \<and> (\<forall>y. year i = Some y \<longrightarrow> y \<noteq> 0)"
proof -
  from assms obtain t where t: "parse_bill_text w url t = Inr i"
    unfolding parse_bill_page_def by (cases "http_get w url") auto
  have "b \<noteq> []" if "bill_number i = Some b" for b
    using parse_bill_digits[OF t that] by (auto simp: bill_digits_def)
  moreover have "y \<noteq> 0" if "year i = Some y" for y
    using parse_year_range[OF t that] by simp
  ultimately show ?thesis by blast
qed

lemma demo_page: "parse_bill_page (demo_world (\<lambda>fs. fs)) ''https://x/a/1181.htm'' =
    Inr \<lparr>year = Some 2024, bill_number = Some ''1181'', title = None, matched = True,
         bill_text_url = ''https://x/a/1181.htm''\<rparr>"
  by code_simp

lemma str_int_2024: "str_int 2024 = ''2024''"
  by code_simp


section \<open>Matching the lower-cased text\<close>

lemma not_upper_lower: "\<not> is_upper (lower_char c)"
proof (cases "is_upper c")
  case True
  then have "code (lower_char c) = code c + 32" by (simp add: code_lower_char)
  with True show ?thesis unfolding is_upper_def by arith
next
  case False
  then show ?thesis by (simp add: lower_char_eq)
qed

lemma lower_char_idem [simp]: "lower_char (lower_char c) = lower_char c"
  using not_upper_lower[of c] by (simp add: lower_char_eq[of "lower_char c"])

lemma is_digit_lower [simp]: "is_digit (lower_char c) = is_digit c"
  unfolding is_digit_def code_lower_char is_upper_def by auto

lemma is_space_lower [simp]: "is_space (lower_char c) = is_space c"
  unfolding is_space_def code_lower_char is_upper_def by auto

lemma is_word_lower [simp]: "is_word (lower_char c) = is_word c"
  unfolding is_word_def Let_def code_lower_char is_upper_def by auto

lemma lit_match_lower_char [simp]: "lit_match True l (lower_char c) = lit_match True l c"
  by (simp add: lit_match_def)

lemma atom_match_lower [simp]: "atom_match True a (lower_char c) = atom_match True a c"
  by (cases a) simp_all

lemma in_class_lower [simp]: "in_class True as (lower_char c) = in_class True as c"
  by (simp add: in_class_def)















section \<open>Two concrete runs\<close>

lemma demo_run:
  "main_on demo_sessions (demo_world (\<lambda>fs. fs)) {2023, 2024, 2025} =
     Inr [\<lparr>row_biennium = ''2023-24'', row_year = 2024, row_bill_number = ''HB 1181'',
           row_title = [], row_bill_text_url = ''https://x/a/1181.htm'',
           row_bill_summary_url =
             ''https://app.leg.wa.gov/BillSummary/?BillNumber=1181&Year=2024&Initiative=false''\<rparr>]"
  by code_simp

lemma demo_run_rev:
  "main_on demo_sessions (demo_world rev) {2023, 2024, 2025} =
     Inr [\<lparr>row_biennium = ''2023-24'', row_year = 2024, row_bill_number = ''HB 1181'',
           row_title = [], row_bill_text_url = ''https://x/a/1181-S.htm'',
           row_bill_summary_url =
             ''https://app.leg.wa.gov/BillSummary/?BillNumber=1181&Year=2024&Initiative=false''\<rparr>]"
  by code_simp


section \<open>The claims\<close>



text \<open>
  C9.  In every row handed to the writer the summary URL is a non-empty string: a row is
  only built from a record whose year and bill number are both present and truthy, so
  \<open>bill_summary_url\<close> never takes its \<open>None\<close> branch there.
\<close>

theorem summary_url_nonempty:
  "\<exists>rows. main_on sessions w years = Inr rows \<and> (\<forall>r \<in> set rows. row_bill_summary_url r \<noteq> [])"
proof -
  obtain rows where rows: "main_on sessions w years = Inr rows"
    using main_on_total by blast
  have "row_bill_summary_url r \<noteq> []" if "r \<in> set rows" for r
  proof -
    from that rows have "r \<in> set (fst (collect sessions w years))"
      unfolding main_on_def by (simp add: sort_rows_set)
    then obtain s where "row_from w years s r" using collect_rows by blast
    then obtain i where i: "qualifies years i" "r = new_row (fst s) i"
      unfolding row_from_def by blast
    from i(1) have "the (bill_number i) \<noteq> []" "the (year i) \<noteq> 0"
      unfolding qualifies_def by (cases "bill_number i"; cases "year i"; simp)+
    then show ?thesis
      unfolding i(2) new_row_def make_row_def bill_summary_url_def by simp
  qed
  with rows show ?thesis by blast
qed

theorem summary_url_nonempty_witness:
  "\<exists>rows. main_on demo_sessions (demo_world (\<lambda>fs. fs)) {2023, 2024, 2025} = Inr rows
     \<and> rows \<noteq> [] \<and> (\<forall>r \<in> set rows. row_bill_summary_url r \<noteq> [])"
  using summary_url_nonempty[of demo_sessions "demo_world (\<lambda>fs. fs)" "{2023, 2024, 2025}"]
  unfolding demo_run by simp








text \<open>
  C6.  Fallback invariant: when the text holds no HOUSE BILL phrase and the URL's last
  path segment is a number of three or four digits, a suffix of letters, digits,
  underscores and hyphens that does not continue the number, and \<open>.htm\<close> (as in
  \<open>1181-S.htm\<close>), the identifier is that number.  When neither the bill pattern nor the
  file-name pattern matches, the identifier is absent.
\<close>

theorem filename_fallback:
  "(\<not> house_bill_phrase text \<and> url = p @ ''/'' @ ds @ suffix @ ''.htm''
      \<and> list_all is_digit ds \<and> (length ds = 3 \<or> length ds = 4) \<and> list_all fn_char suffix
      \<and> (length ds = 3 \<longrightarrow> \<not> starts_with_digit suffix)
     \<longrightarrow> (\<exists>i. parse_bill_text w url text = Inr i \<and> bill_number i = Some ds))
   \<and> (search True BILLNUM_RE text = None \<and> search False FILENAME_RE url = None
     \<longrightarrow> (\<exists>i. parse_bill_text w url text = Inr i \<and> bill_number i = None))"
proof (intro conjI impI)
  assume a: "\<not> house_bill_phrase text \<and> url = p @ ''/'' @ ds @ suffix @ ''.htm''
      \<and> list_all is_digit ds \<and> (length ds = 3 \<or> length ds = 4) \<and> list_all fn_char suffix
      \<and> (length ds = 3 \<longrightarrow> \<not> starts_with_digit suffix)"
  then have nb: "search True BILLNUM_RE text = None"
    using search_BILLNUM_phrase by blast
  from a have ds: "list_all is_digit ds" "length ds = 3 \<or> length ds = 4" "list_all fn_char suffix"
    and url: "url = p @ ''/'' @ (ds @ suffix) @ ''.htm''" by simp_all
  have body: "list_all fn_char (ds @ suffix)"
    using ds(1,3) list_all_digit_fn by simp
  have ge: "length ds \<le> length (takeWhile is_digit (ds @ suffix))"
    by (rule run_digits_ge[OF ds(1)])
  have tk: "take (min 4 (length (takeWhile is_digit (ds @ suffix)))) (ds @ suffix) = ds"
  proof (cases "length ds = 4")
    case True
    with ge show ?thesis by (simp add: min_def)
  next
    case False
    with ds(2) a have "length ds = 3" "\<not> starts_with_digit suffix" by simp_all
    then show ?thesis using run_digits_eq[OF ds(1)] by simp
  qed
  have "search False FILENAME_RE url = Some [1 \<mapsto> ds]"
    unfolding url using FILENAME_search[OF body, of p] ge ds(2) unfolding tk by auto
  with nb parse_bill_text_total[of w url "text"]
  show "\<exists>i. parse_bill_text w url text = Inr i \<and> bill_number i = Some ds"
    by (auto simp: m_group_def)
next
  assume "search True BILLNUM_RE text = None \<and> search False FILENAME_RE url = None"
  with parse_bill_text_total[of w url "text"]
  show "\<exists>i. parse_bill_text w url text = Inr i \<and> bill_number i = None"
    by auto
qed

theorem filename_fallback_witness:
  "\<not> house_bill_phrase [] \<and> list_all is_digit ''1181'' \<and> list_all fn_char ''-S''
   \<and> \<not> starts_with_digit ''-S''
   \<and> (\<exists>i. parse_bill_text (demo_world (\<lambda>fs. fs)) ''https://x/a/1181-S.htm'' [] = Inr i
         \<and> bill_number i = Some ''1181'')
   \<and> search True BILLNUM_RE [] = None \<and> search False FILENAME_RE ''u'' = None
   \<and> (\<exists>i. parse_bill_text (demo_world (\<lambda>fs. fs)) ''u'' [] = Inr i \<and> bill_number i = None)"
proof -
  have d: "list_all is_digit ''1181''" by (simp add: is_digit_def code_def)
  have f: "list_all fn_char ''-S''" by (simp add: fn_char_def is_word_def code_def)
  have s: "\<not> starts_with_digit ''-S''" by (simp add: starts_with_digit_def is_digit_def code_def)
  from filename_fallback[of "[]" "''https://x/a/1181-S.htm''" "''https://x/a''" "''1181''" "''-S''"
      "demo_world (\<lambda>fs. fs)"] no_phrase_empty d f s
  have 1: "\<exists>i. parse_bill_text (demo_world (\<lambda>fs. fs)) ''https://x/a/1181-S.htm'' [] = Inr i
         \<and> bill_number i = Some ''1181''" by simp
  from filename_fallback[of "[]" "''u''" _ _ _ "demo_world (\<lambda>fs. fs)"] search_empty
  have 2: "\<exists>i. parse_bill_text (demo_world (\<lambda>fs. fs)) ''u'' [] = Inr i \<and> bill_number i = None"
    by blast
  from 1 2 no_phrase_empty d f s search_empty show ?thesis by blast
qed

text \<open>
  C10.  When the URL's last path segment begins with five or more digits, continues with
  any letters, digits, underscores and hyphens, and ends in \<open>.htm\<close>, the file-name search
  succeeds and its group is exactly the first four digits; that is the identifier when the
  text has no match of the bill pattern.
\<close>

theorem long_number_filename:
  "list_all is_digit ds \<and> 5 \<le> length ds \<and> list_all fn_char suffix \<longrightarrow>
     search False FILENAME_RE (p @ ''/'' @ ds @ suffix @ ''.htm'') = Some [1 \<mapsto> take 4 ds]
     \<and> (search True BILLNUM_RE text = None \<longrightarrow>
          (\<exists>i. parse_bill_text w (p @ ''/'' @ ds @ suffix @ ''.htm'') text = Inr i
             \<and> bill_number i = Some (take 4 ds)))"
proof (intro impI)
  assume a: "list_all is_digit ds \<and> 5 \<le> length ds \<and> list_all fn_char suffix"
  then have body: "list_all fn_char (ds @ suffix)" using list_all_digit_fn by simp
  have ge: "length ds \<le> length (takeWhile is_digit (ds @ suffix))"
    using a by (intro run_digits_ge) simp
  with a have run: "3 \<le> length (takeWhile is_digit (ds @ suffix))"
    and m: "min 4 (length (takeWhile is_digit (ds @ suffix))) = 4" by simp_all
  have tk: "take 4 (ds @ suffix) = take 4 ds" using a by simp
  have fn: "search False FILENAME_RE (p @ ''/'' @ ds @ suffix @ ''.htm'') = Some [1 \<mapsto> take 4 ds]"
    using FILENAME_search[OF body run, of p] unfolding m tk by simp
  show "search False FILENAME_RE (p @ ''/'' @ ds @ suffix @ ''.htm'') = Some [1 \<mapsto> take 4 ds]
     \<and> (search True BILLNUM_RE text = None \<longrightarrow>
          (\<exists>i. parse_bill_text w (p @ ''/'' @ ds @ suffix @ ''.htm'') text = Inr i
             \<and> bill_number i = Some (take 4 ds)))"
    using fn parse_bill_text_total[of w "p @ ''/'' @ ds @ suffix @ ''.htm''" "text"]
    by (auto simp: m_group_def)
qed

theorem long_number_filename_witness:
  "list_all is_digit ''12345'' \<and> 5 \<le> length ''12345'' \<and> list_all fn_char []
   \<and> search False FILENAME_RE ''https://x/a/12345.htm'' = Some [1 \<mapsto> ''1234'']
   \<and> search True BILLNUM_RE [] = None
   \<and> (\<exists>i. parse_bill_text (demo_world (\<lambda>fs. fs)) ''https://x/a/12345.htm'' [] = Inr i
         \<and> bill_number i = Some ''1234'')"
proof -
  have d: "list_all is_digit ''12345''" by (simp add: is_digit_def code_def)
  from long_number_filename[of "''12345''" "[]" "''https://x/a''" "[]" "demo_world (\<lambda>fs. fs)"]
    d search_empty(1)
  show ?thesis by simp
qed

text \<open>
  C7.  The summary URL of a report row is the fixed template with exactly the row's bill
  number and year; \<open>bill_summary_url\<close> gives that template for a bill number and a year,
  and the empty string results when either is absent.  On every record the extractor
  returns, present means what the code tests, so the URL is the template when both
  fields are present and empty otherwise.
\<close>

theorem summary_url_template:
  "(b \<noteq> [] \<and> y \<noteq> 0 \<longrightarrow>
       bill_summary_url (Some b) (Some y) = Some (summary_template b y)
     \<and> row_bill_summary_url (make_row biennium y b i) = summary_template b y)
   \<and> or_empty (bill_summary_url None yo) = []
   \<and> or_empty (bill_summary_url bo None) = []
   \<and> (parse_bill_page w url = Inr j \<longrightarrow>
        or_empty (bill_summary_url (bill_number j) (year j)) =
          (case (bill_number j, year j) of
             (Some n, Some v) \<Rightarrow> summary_template n v
           | _ \<Rightarrow> []))"
proof (intro conjI impI)
  assume "parse_bill_page w url = Inr j"
  from parse_page_fields[OF this]
  show "or_empty (bill_summary_url (bill_number j) (year j)) =
          (case (bill_number j, year j) of
             (Some n, Some v) \<Rightarrow> summary_template n v
           | _ \<Rightarrow> [])"
    by (cases "bill_number j"; cases "year j")
       (simp_all add: bill_summary_url_def or_empty_def summary_template_def)
qed (simp_all add: bill_summary_url_def or_empty_def summary_template_def make_row_def)

theorem summary_url_template_witness:
  "''1181'' \<noteq> [] \<and> (2024 :: int) \<noteq> 0
   \<and> bill_summary_url (Some ''1181'') (Some 2024)
       = Some ''https://app.leg.wa.gov/BillSummary/?BillNumber=1181&Year=2024&Initiative=false''
   \<and> (\<exists>j. parse_bill_page (demo_world (\<lambda>fs. fs)) ''https://x/a/1181.htm'' = Inr j
         \<and> or_empty (bill_summary_url (bill_number j) (year j))
            = ''https://app.leg.wa.gov/BillSummary/?BillNumber=1181&Year=2024&Initiative=false'')"
  using summary_url_template[of "''1181''" 2024 "''2023-24''" _ None None "demo_world (\<lambda>fs. fs)"
      "''https://x/a/1181.htm''"
      "\<lparr>year = Some 2024, bill_number = Some ''1181'', title = None, matched = True,
         bill_text_url = ''https://x/a/1181.htm''\<rparr>"]
  by (simp add: demo_page summary_template_def str_int_2024 or_empty_def)




end
